theory Spec2Isabelle
  imports Complex_Main "HOL-Library.Word" "HOL-Library.Multiset"
begin

section \<open>Data model of Poly.c\<close>

text \<open>
  The C \<^verbatim>\<open>int\<close> of an exponent is a 32-bit word read as a signed number
  (\<open>sint\<close>); \<open>exp + 1\<close> and \<open>exp - 1\<close> wrap around at the ends of the range
  (ISO C leaves signed overflow undefined). The C \<^verbatim>\<open>double\<close> of a coefficient is
  a real number: arithmetic is exact, there is no rounding, no infinity and no NaN.

  A polynomial object holds the array slots \<open>terms[0 .. size-1]\<close> as the list
  \<open>terms\<close>; the field \<open>size\<close> of the C struct is the length of that list. The slots
  from index \<open>size\<close> to \<open>cap - 1\<close> are never read by any function of Poly.c, so they
  are not part of the model.
\<close>

type_synonym cint = "32 word"

datatype Status = FAILURE | SUCCESS

record PolyTerm =
  exp_t :: cint
  coeff :: real

record Poly =
  terms :: "PolyTerm list"
  cap :: int

definition psize :: "Poly \<Rightarrow> nat" where
  "psize p = length (terms p)"

text \<open>The rules of a valid polynomial object (README): no coefficient is 0 and no two
  terms have the same exponent.\<close>

definition poly_inv :: "Poly \<Rightarrow> bool" where
  "poly_inv p \<longleftrightarrow> list_all (\<lambda>t. coeff t \<noteq> 0) (terms p) \<and> distinct (map exp_t (terms p))"

section \<open>Queries\<close>

definition poly_existsNegExp :: "Poly \<Rightarrow> bool" where
  "poly_existsNegExp p = list_ex (\<lambda>t. sint (exp_t t) < 0) (terms p)"

definition poly_existsTermWithExp :: "Poly \<Rightarrow> cint \<Rightarrow> bool" where
  "poly_existsTermWithExp p e = list_ex (\<lambda>t. exp_t t = e) (terms p)"

definition poly_hasNoTerms :: "Poly \<Rightarrow> bool" where
  "poly_hasNoTerms p = (psize p = 0)"

text \<open>\<open>getIndexOfTermWithExp\<close>: the loop from index \<open>i\<close> on; \<open>-1\<close> when no term has
  the exponent.\<close>

fun indexFrom :: "PolyTerm list \<Rightarrow> cint \<Rightarrow> int \<Rightarrow> int" where
  "indexFrom [] e i = -1"
| "indexFrom (t # ts) e i = (if exp_t t = e then i else indexFrom ts e (i + 1))"

definition getIndexOfTermWithExp :: "Poly \<Rightarrow> cint \<Rightarrow> int" where
  "getIndexOfTermWithExp p e = indexFrom (terms p) e 0"

fun getNumOfNegExps_loop :: "PolyTerm list \<Rightarrow> int \<Rightarrow> int" where
  "getNumOfNegExps_loop [] n = n"
| "getNumOfNegExps_loop (t # ts) n =
     getNumOfNegExps_loop ts (if sint (exp_t t) < 0 then n + 1 else n)"

definition getNumOfNegExps :: "Poly \<Rightarrow> int" where
  "getNumOfNegExps p = getNumOfNegExps_loop (terms p) 0"

section \<open>Term removal and insertion\<close>

text \<open>The shifting loop of \<open>poly_removeTermWithExp\<close>:
  \<^verbatim>\<open>for (i = idx; i < size - 1; ++i) terms[i] = terms[i + 1];\<close>\<close>

function shiftLeft :: "PolyTerm list \<Rightarrow> nat \<Rightarrow> PolyTerm list" where
  "shiftLeft ts i = (if i + 1 < length ts then shiftLeft (ts[i := ts ! (i + 1)]) (i + 1) else ts)"
  by pat_completeness auto
termination
  by (relation "measure (\<lambda>(ts, i). length ts - i)") auto

declare shiftLeft.simps [simp del]

definition poly_removeTermWithExp :: "Poly \<Rightarrow> cint \<Rightarrow> Status \<times> Poly" where
  "poly_removeTermWithExp p e =
     (if poly_existsTermWithExp p e then
        (let idx = nat (getIndexOfTermWithExp p e)
         in (SUCCESS, p\<lparr>terms := butlast (shiftLeft (terms p) idx)\<rparr>))
      else (FAILURE, p))"

text \<open>\<open>resize\<close> asks realloc for room for \<open>cap + 1\<close> terms. Whether realloc succeeds is
  not decided by the program: \<open>alloc n\<close> says whether a request for \<open>n\<close> terms is
  granted.\<close>

definition resize :: "(int \<Rightarrow> bool) \<Rightarrow> Poly \<Rightarrow> Status \<times> Poly" where
  "resize alloc p = (if alloc (cap p + 1) then (SUCCESS, p\<lparr>cap := cap p + 1\<rparr>) else (FAILURE, p))"

definition poly_addTerm :: "(int \<Rightarrow> bool) \<Rightarrow> Poly \<Rightarrow> cint \<Rightarrow> real \<Rightarrow> Status \<times> Poly" where
  "poly_addTerm alloc p e c =
     (if poly_existsTermWithExp p e then
        (let idx = nat (getIndexOfTermWithExp p e);
             t = terms p ! idx;
             p1 = p\<lparr>terms := (terms p)[idx := t\<lparr>coeff := coeff t + c\<rparr>]\<rparr>
         in if coeff (terms p1 ! idx) = 0 then (SUCCESS, snd (poly_removeTermWithExp p1 e))
            else (SUCCESS, p1))
      else if c \<noteq> 0 then
        (if int (psize p) = cap p then
           (case resize alloc p of
              (FAILURE, _) \<Rightarrow> (FAILURE, p)
            | (SUCCESS, p2) \<Rightarrow> (SUCCESS, p2\<lparr>terms := terms p2 @ [\<lparr>exp_t = e, coeff = c\<rparr>]\<rparr>))
         else (SUCCESS, p\<lparr>terms := terms p @ [\<lparr>exp_t = e, coeff = c\<rparr>]\<rparr>))
      else (SUCCESS, p))"


section \<open>Differentiation\<close>

definition diffTerm :: "PolyTerm \<Rightarrow> PolyTerm" where
  "diffTerm t =
     (if exp_t t = 0 then \<lparr>exp_t = 0, coeff = 0\<rparr>
      else \<lparr>exp_t = exp_t t - 1, coeff = coeff t * real_of_int (sint (exp_t t))\<rparr>)"

text \<open>The loop of \<open>diffPoly\<close> writes the kept derivatives to the front of the same array
  (index \<open>j\<close>) while it reads at index \<open>i\<close>; the flag records that a constant term was
  met. State: the array, \<open>i\<close>, \<open>j\<close>, \<open>constTermIsDifferentiated\<close>.\<close>

function diffLoop :: "PolyTerm list \<Rightarrow> nat \<Rightarrow> nat \<Rightarrow> bool \<Rightarrow> PolyTerm list \<times> bool" where
  "diffLoop ts i j c =
     (if i < length ts then
        (let d = diffTerm (ts ! i)
         in if \<not> (coeff d = 0 \<and> exp_t d = 0) then diffLoop (ts[j := d]) (i + 1) (j + 1) c
            else diffLoop ts (i + 1) j True)
      else (ts, c))"
  by pat_completeness auto
termination
  by (relation "measure (\<lambda>(ts, i, j, c). length ts - i)") (auto simp: Let_def)

declare diffLoop.simps [simp del]

text \<open>After the loop the size is decremented once when the flag is set.\<close>

definition diffPoly :: "Poly \<Rightarrow> Status \<times> Poly" where
  "diffPoly p =
     (if psize p = 0 then (FAILURE, p)
      else (case diffLoop (terms p) 0 0 False of
              (ts, c) \<Rightarrow> (SUCCESS, p\<lparr>terms := (if c then butlast ts else ts)\<rparr>)))"

text \<open>The loop of \<open>poly_calcNthDeriv\<close>:
  \<^verbatim>\<open>for (i = 0; i < n && !(*pNthDerivIsZero); ++i) if (!diffPoly(pPoly)) *pNthDerivIsZero = TRUE;\<close>\<close>

function nthDerivLoop :: "int \<Rightarrow> int \<Rightarrow> Poly \<Rightarrow> bool \<Rightarrow> Poly \<times> bool" where
  "nthDerivLoop i n p z =
     (if i < n \<and> \<not> z then
        (case diffPoly p of
           (FAILURE, p1) \<Rightarrow> nthDerivLoop (i + 1) n p1 True
         | (SUCCESS, p1) \<Rightarrow> nthDerivLoop (i + 1) n p1 z)
      else (p, z))"
  by pat_completeness auto
termination
  by (relation "measure (\<lambda>(i, n, p, z). nat (n - i))") auto

declare nthDerivLoop.simps [simp del]

text \<open>Result of \<open>poly_calcNthDeriv\<close>: the status, the polynomial, and the Boolean written
  through \<open>pNthDerivIsZero\<close>.\<close>

definition poly_calcNthDeriv :: "Poly \<Rightarrow> int \<Rightarrow> Status \<times> Poly \<times> bool" where
  "poly_calcNthDeriv p n =
     (if psize p = 0 then (FAILURE, p, False)
      else (case nthDerivLoop 0 n p False of (p1, z) \<Rightarrow> (SUCCESS, p1, z)))"

section \<open>Evaluation at an x-value\<close>

text \<open>\<open>pow(x, exp)\<close> of the C library with an integer exponent, on real numbers. At
  \<open>x = 0\<close> with a negative exponent C gives an infinity; \<open>powi\<close> gives 0 there, and the
  interface functions never evaluate that case.\<close>

definition pow :: "real \<Rightarrow> cint \<Rightarrow> real" where
  "pow x e = x powi (sint e)"

fun calcXValue_loop :: "PolyTerm list \<Rightarrow> real \<Rightarrow> real \<Rightarrow> real" where
  "calcXValue_loop [] x r = r"
| "calcXValue_loop (t # ts) x r =
     calcXValue_loop ts x (if exp_t t = 0 then r + coeff t else r + coeff t * pow x (exp_t t))"

definition calcXValue :: "Poly \<Rightarrow> real \<Rightarrow> real" where
  "calcXValue p x = calcXValue_loop (terms p) x 0"

text \<open>Result of \<open>poly_calcXValue\<close>: status, the polynomial after the call, \<open>*pResult\<close>,
  \<open>*pPolyHasNoTerms\<close>.\<close>

definition poly_calcXValue :: "Poly \<Rightarrow> real \<Rightarrow> Status \<times> Poly \<times> real \<times> bool" where
  "poly_calcXValue p x =
     (if psize p = 0 then (FAILURE, p, 0, True)
      else if x = 0 \<and> poly_existsNegExp p then (FAILURE, p, 0, False)
      else (SUCCESS, p, calcXValue p x, False))"

section \<open>Integration\<close>

text \<open>\<open>integrateTerm\<close> returns the integral and writes the two out-parameters.\<close>

definition integrateTerm :: "PolyTerm \<Rightarrow> PolyTerm \<times> bool \<times> real" where
  "integrateTerm t =
     (if exp_t t = -1 then (t, True, coeff t)
      else (\<lparr>exp_t = exp_t t + 1, coeff = coeff t / real_of_int (sint (exp_t t + 1))\<rparr>, False, 0))"

text \<open>The loop of \<open>integratePoly\<close>. State: the array, \<open>i\<close>, \<open>j\<close>, and the values behind
  \<open>pExpNegOneIntegrated\<close> and \<open>pCoeffExpNegOne\<close>; the two locals are written by
  \<open>integrateTerm\<close> in every round before they are read.\<close>

function integLoop :: "PolyTerm list \<Rightarrow> nat \<Rightarrow> nat \<Rightarrow> bool \<Rightarrow> real \<Rightarrow> PolyTerm list \<times> bool \<times> real" where
  "integLoop ts i j pE pC =
     (if i < length ts then
        (case integrateTerm (ts ! i) of
           (it, e1, c1) \<Rightarrow>
             if e1 \<and> \<not> pE then integLoop ts (i + 1) j True c1
             else integLoop (ts[j := it]) (i + 1) (j + 1) pE pC)
      else (ts, pE, pC))"
  by pat_completeness auto
termination
  by (relation "measure (\<lambda>(ts, i, j, pE, pC). length ts - i)") auto

declare integLoop.simps [simp del]

text \<open>Result of \<open>integratePoly\<close>: status, polynomial, \<open>*pExpNegOneIntegrated\<close>,
  \<open>*pCoeffExpNegOne\<close>.\<close>

definition integratePoly :: "Poly \<Rightarrow> Status \<times> Poly \<times> bool \<times> real" where
  "integratePoly p =
     (if psize p = 0 then (FAILURE, p, False, 0)
      else (case integLoop (terms p) 0 0 False 0 of
              (ts, pE, pC) \<Rightarrow> (SUCCESS, p\<lparr>terms := (if pE then butlast ts else ts)\<rparr>, pE, pC)))"

definition poly_calcIndefIntegral :: "Poly \<Rightarrow> Status \<times> Poly \<times> bool \<times> real" where
  "poly_calcIndefIntegral p =
     (if psize p = 0 then (FAILURE, p, False, 0)
      else (case integratePoly p of (st, p1, pE, pC) \<Rightarrow> (SUCCESS, p1, pE, pC)))"

definition zeroInRange :: "real \<Rightarrow> real \<Rightarrow> bool" where
  "zeroInRange LB UB \<longleftrightarrow> (LB \<le> 0 \<and> UB \<ge> 0) \<or> (UB \<le> 0 \<and> LB \<ge> 0)"

definition defIntegralDivByZeroError :: "Poly \<Rightarrow> real \<Rightarrow> real \<Rightarrow> bool" where
  "defIntegralDivByZeroError p LB UB =
     (if poly_existsNegExp p \<and> zeroInRange LB UB then
        (if getNumOfNegExps p = 1 then
           (if poly_existsTermWithExp p (-1) then False else True)
         else True)
      else False)"

definition defIntegralNatLogError :: "Poly \<Rightarrow> real \<Rightarrow> real \<Rightarrow> bool" where
  "defIntegralNatLogError p LB UB = (poly_existsTermWithExp p (-1) \<and> zeroInRange LB UB)"

text \<open>What \<open>poly_calcDefIntegral\<close> returns and writes through its pointers.\<close>

record DefIntegral =
  status :: Status
  poly :: Poly
  result :: real
  expNegOneIntegrated :: bool
  coeffExpNegOne :: real
  polyHasNoTerms :: bool
  divByZeroError :: bool
  natLogError :: bool

definition poly_calcDefIntegral :: "Poly \<Rightarrow> real \<Rightarrow> real \<Rightarrow> DefIntegral" where
  "poly_calcDefIntegral p LB UB =
     (let r0 = \<lparr>status = FAILURE, poly = p, result = 0, expNegOneIntegrated = False,
                coeffExpNegOne = 0, polyHasNoTerms = False, divByZeroError = False,
                natLogError = False\<rparr>
      in if psize p = 0 then r0\<lparr>polyHasNoTerms := True\<rparr>
         else if defIntegralDivByZeroError p LB UB \<and> \<not> defIntegralNatLogError p LB UB
           then r0\<lparr>divByZeroError := True\<rparr>
         else if \<not> defIntegralDivByZeroError p LB UB \<and> defIntegralNatLogError p LB UB
           then r0\<lparr>natLogError := True\<rparr>
         else if defIntegralDivByZeroError p LB UB \<and> defIntegralNatLogError p LB UB
           then r0\<lparr>divByZeroError := True, natLogError := True\<rparr>
         else (case integratePoly p of
                 (st, p1, pE, pC) \<Rightarrow>
                   r0\<lparr>status := SUCCESS, poly := p1, expNegOneIntegrated := pE,
                      coeffExpNegOne := pC, result := calcXValue p1 UB - calcXValue p1 LB\<rparr>))"

section \<open>Sorting and copying\<close>

definition swap :: "PolyTerm list \<Rightarrow> nat \<Rightarrow> nat \<Rightarrow> PolyTerm list" where
  "swap ts a b = ts[a := ts ! b, b := ts ! a]"

text \<open>The inner loop of \<open>poly_sort\<close> looks for the largest exponent from index \<open>j\<close> on;
  the outer loop swaps it to index \<open>i\<close>.\<close>

function findMaxLoop :: "PolyTerm list \<Rightarrow> nat \<Rightarrow> nat \<Rightarrow> nat" where
  "findMaxLoop ts j m =
     (if j < length ts then
        findMaxLoop ts (j + 1) (if sint (exp_t (ts ! j)) > sint (exp_t (ts ! m)) then j else m)
      else m)"
  by pat_completeness auto
termination
  by (relation "measure (\<lambda>(ts, j, m). length ts - j)") auto

declare findMaxLoop.simps [simp del]

function sortLoop :: "PolyTerm list \<Rightarrow> nat \<Rightarrow> PolyTerm list" where
  "sortLoop ts i =
     (if i + 1 < length ts then
        (let indexOfMax = findMaxLoop ts (i + 1) i
         in sortLoop (if i \<noteq> indexOfMax then swap ts i indexOfMax else ts) (i + 1))
      else ts)"
  by pat_completeness auto
termination
  by (relation "measure (\<lambda>(ts, i). length ts - i)") (auto simp: swap_def)

declare sortLoop.simps [simp del]

definition poly_sort :: "Poly \<Rightarrow> Poly" where
  "poly_sort p = p\<lparr>terms := sortLoop (terms p) 0\<rparr>"





text \<open>Two allocators for concrete runs: one grants every request, one grants none.\<close>

definition allocAlways :: "int \<Rightarrow> bool" where
  "allocAlways n = True"

definition allocNever :: "int \<Rightarrow> bool" where
  "allocNever n = False"

section \<open>Polynomial strings\<close>

text \<open>
  A C string is the list of its characters before the terminating NUL. \<open>cnth s i\<close> is
  \<open>s[i]\<close>: the terminator at index \<open>length s\<close>. \<open>isspace\<close> and \<open>isdigit\<close> are those of
  the C locale.
\<close>

definition cnth :: "string \<Rightarrow> nat \<Rightarrow> char" where
  "cnth s i = (if i < length s then s ! i else CHR 0x00)"

definition isspace :: "char \<Rightarrow> bool" where
  "isspace c \<longleftrightarrow> c = CHR '' '' \<or> c = CHR 0x09 \<or> c = CHR 0x0A \<or> c = CHR 0x0B \<or> c = CHR 0x0C \<or> c = CHR 0x0D"

definition isdigit :: "char \<Rightarrow> bool" where
  "isdigit c \<longleftrightarrow> c \<in> set ''0123456789''"

definition validCompChars :: string where
  "validCompChars = ''0123456789xX+-.^''"

definition allCompCharsAreValid :: "string \<Rightarrow> bool" where
  "allCompCharsAreValid cmp = list_all (\<lambda>c. c \<in> set validCompChars) cmp"

text \<open>The two loops that every scan of a polynomial string starts a round with: skip
  white space, then copy the characters up to the next white space into \<open>comp\<close> (here \<open>cmp\<close>). The
  result is that component and the rest of the string.\<close>

definition nextComp :: "string \<Rightarrow> string \<times> string" where
  "nextComp s =
     (let s1 = dropWhile isspace s
      in (takeWhile (\<lambda>c. \<not> isspace c) s1, dropWhile (\<lambda>c. \<not> isspace c) s1))"

subsection \<open>Numbers in a string\<close>

text \<open>The first loop of \<open>inputsAreValidDoubles\<close> and \<open>inputsAreValidInts\<close>: leading white
  space must be spaces. \<open>None\<close> is the early \<open>return FALSE\<close>, otherwise the index
  reached.\<close>

function leadingSpaces :: "string \<Rightarrow> nat \<Rightarrow> nat option" where
  "leadingSpaces s i =
     (if i < length s \<and> isspace (cnth s i) then
        (if cnth s i \<noteq> CHR '' '' then None else leadingSpaces s (i + 1))
      else Some i)"
  by pat_completeness auto
termination
  by (relation "measure (\<lambda>(s, i). length s - i)") auto

declare leadingSpaces.simps [simp del]

text \<open>The checking loop of \<open>inputsAreValidDoubles\<close>. State: \<open>i\<close>, \<open>negExists\<close>,
  \<open>decExists\<close>.\<close>

function validDoublesLoop :: "string \<Rightarrow> nat \<Rightarrow> bool \<Rightarrow> bool \<Rightarrow> bool" where
  "validDoublesLoop s i negExists decExists =
     (if i < length s then
        (let c = cnth s i in
         if \<not> isdigit c \<and> c \<noteq> CHR '' '' \<and> c \<noteq> CHR ''-'' \<and> c \<noteq> CHR ''.'' then False
         else if c = CHR '' '' then validDoublesLoop s (i + 1) False False
         else if c = CHR ''-'' then
           (if negExists then False
            else if i = 0 then
              (if \<not> isdigit (cnth s (i + 1)) \<and> cnth s (i + 1) \<noteq> CHR ''.'' then False
               else validDoublesLoop s (i + 1) True decExists)
            else
              (if (\<not> isdigit (cnth s (i + 1)) \<and> cnth s (i + 1) \<noteq> CHR ''.'')
                  \<or> cnth s (i - 1) \<noteq> CHR '' '' then False
               else validDoublesLoop s (i + 1) True decExists))
         else if c = CHR ''.'' then
           (if decExists then False
            else if i = 0 then
              (if \<not> isdigit (cnth s (i + 1)) then False
               else validDoublesLoop s (i + 1) negExists True)
            else
              (if \<not> isdigit (cnth s (i + 1))
                  \<or> (\<not> isdigit (cnth s (i - 1)) \<and> cnth s (i - 1) \<noteq> CHR '' ''
                      \<and> cnth s (i - 1) \<noteq> CHR ''-'') then False
               else validDoublesLoop s (i + 1) negExists True))
         else validDoublesLoop s (i + 1) negExists decExists)
      else True)"
  by pat_completeness auto
termination
  by (relation "measure (\<lambda>(s, i, n, d). length s - i)") auto

declare validDoublesLoop.simps [simp del]

text \<open>The counting loop of both functions: the number of maximal runs of characters
  other than the space.\<close>

function countNums :: "string \<Rightarrow> int \<Rightarrow> int" where
  "countNums s totalNums =
     (if s \<noteq> [] then
        (let s1 = dropWhile (\<lambda>c. c = CHR '' '') s;
             num = takeWhile (\<lambda>c. c \<noteq> CHR '' '') s1
         in countNums (dropWhile (\<lambda>c. c \<noteq> CHR '' '') s1)
              (if num \<noteq> [] then totalNums + 1 else totalNums))
      else totalNums)"
  by pat_completeness auto
termination
proof (relation "measure (\<lambda>(s, n). length s)")
  show "wf (measure (\<lambda>(s, n). length s))" by simp
next
  fix s :: string and totalNums :: int and x xa
  assume ne: "s \<noteq> []" and x: "x = dropWhile (\<lambda>c. c = CHR '' '') s"
  have le: "length (dropWhile (\<lambda>c. c \<noteq> CHR '' '') x) \<le> length x"
    by (rule length_dropWhile_le)
  have "length (dropWhile (\<lambda>c. c \<noteq> CHR '' '') x) < length s"
  proof (cases "hd s = CHR '' ''")
    case True
    then have "length x < length s" using ne x by (cases s) (auto simp: le_imp_less_Suc length_dropWhile_le)
    then show ?thesis using le by simp
  next
    case False
    then have "x = s" using ne x by (cases s) auto
    then show ?thesis using ne False by (cases s) (auto simp: le_imp_less_Suc length_dropWhile_le)
  qed
  then show "((dropWhile (\<lambda>c. c \<noteq> CHR '' '') x,
         if xa \<noteq> [] then totalNums + 1 else totalNums), s, totalNums)
       \<in> measure (\<lambda>(s, n). length s)" by simp
qed

declare countNums.simps [simp del]

definition inputsAreValidDoubles :: "string \<Rightarrow> int \<Rightarrow> bool" where
  "inputsAreValidDoubles input expectedNums =
     (case leadingSpaces input 0 of
        None \<Rightarrow> False
      | Some i \<Rightarrow>
          if cnth input i = CHR 0x00 then False
          else if \<not> validDoublesLoop input i False False then False
          else countNums input 0 = expectedNums)"

function validIntsLoop :: "string \<Rightarrow> nat \<Rightarrow> bool \<Rightarrow> bool" where
  "validIntsLoop s i negExists =
     (if i < length s then
        (let c = cnth s i in
         if \<not> isdigit c \<and> c \<noteq> CHR '' '' \<and> c \<noteq> CHR ''-'' then False
         else if c = CHR '' '' then validIntsLoop s (i + 1) False
         else if c = CHR ''-'' then
           (if negExists then False
            else if i = 0 then
              (if \<not> isdigit (cnth s (i + 1)) then False else validIntsLoop s (i + 1) True)
            else
              (if \<not> isdigit (cnth s (i + 1)) \<or> cnth s (i - 1) \<noteq> CHR '' '' then False
               else validIntsLoop s (i + 1) True))
         else validIntsLoop s (i + 1) negExists)
      else True)"
  by pat_completeness auto
termination
  by (relation "measure (\<lambda>(s, i, n). length s - i)") auto

declare validIntsLoop.simps [simp del]

definition inputsAreValidInts :: "string \<Rightarrow> int \<Rightarrow> bool" where
  "inputsAreValidInts input expectedNums =
     (case leadingSpaces input 0 of
        None \<Rightarrow> False
      | Some i \<Rightarrow>
          if cnth input i = CHR 0x00 then False
          else if \<not> validIntsLoop input i False then False
          else countNums input 0 = expectedNums)"

subsection \<open>Validation\<close>

definition isXChar :: "char \<Rightarrow> bool" where
  "isXChar c \<longleftrightarrow> c = CHR ''x'' \<or> c = CHR ''X''"

text \<open>\<open>isValidComp\<close> is only called with a component that has at least one character;
  on the empty string the C code reads behind the terminator.\<close>

definition isValidComp :: "string \<Rightarrow> bool" where
  "isValidComp cmp =
     (if \<not> allCompCharsAreValid cmp then False
      else if length cmp = 1 then
        (cmp = ''x'' \<or> cmp = ''X'' \<or> cmp = ''-'' \<or> cmp = ''+'' \<or> isdigit (cnth cmp 0))
      else
        (let coeffOrExp = takeWhile (\<lambda>c. \<not> isXChar c) cmp;
             i = length coeffOrExp
         in if coeffOrExp \<noteq> [] \<and> coeffOrExp \<noteq> ''-'' \<and> \<not> inputsAreValidDoubles coeffOrExp 1
              then False
            else if coeffOrExp \<noteq> [] \<and> cnth cmp i = CHR 0x00 then True
            else if cnth cmp (i + 1) = CHR 0x00 then True
            else if cnth cmp (i + 1) \<noteq> CHR ''^'' then False
            else inputsAreValidInts (drop (i + 2) cmp) 1))"

definition isOp :: "string \<Rightarrow> bool" where
  "isOp cmp \<longleftrightarrow> cmp = ''+'' \<or> cmp = ''-''"

text \<open>The loop of \<open>poly_isValidPolyStr\<close> on the rest of the string. State:
  \<open>prevCompIsOp\<close>, \<open>isFirstComp\<close>.\<close>

function isValidLoop :: "string \<Rightarrow> bool \<Rightarrow> bool \<Rightarrow> bool" where
  "isValidLoop s prevCompIsOp isFirstComp =
     (if s \<noteq> [] then
        (case nextComp s of
           (cmp, rest) \<Rightarrow>
             if cmp = [] then \<not> prevCompIsOp
             else if \<not> isValidComp cmp then False
             else if isFirstComp then
               (if isOp cmp then False else isValidLoop rest prevCompIsOp False)
             else if isOp cmp then
               (if prevCompIsOp then False else isValidLoop rest True isFirstComp)
             else
               (if \<not> prevCompIsOp then False else isValidLoop rest False isFirstComp))
      else \<not> prevCompIsOp)"
  by pat_completeness auto
termination
proof -
  have lt: "length rest < length s" if "(cmp, rest) = nextComp s" "cmp \<noteq> []" for s cmp rest
  proof -
    let ?s1 = "dropWhile isspace s"
    have "cmp @ rest = ?s1"
      using that(1) by (simp add: nextComp_def Let_def)
    then have "length cmp + length rest = length ?s1"
      by (metis length_append)
    moreover have "length ?s1 \<le> length s" by (rule length_dropWhile_le)
    ultimately show ?thesis using that(2) by (cases cmp) auto
  qed
  show ?thesis
    by (relation "measure (\<lambda>(s, p, f). length s)") (auto intro: lt)
qed

declare isValidLoop.simps [simp del]

definition poly_isValidPolyStr :: "string \<Rightarrow> bool" where
  "poly_isValidPolyStr polyStr = (if polyStr = [] then False else isValidLoop polyStr False True)"

subsection \<open>Reading a term\<close>

text \<open>
  \<open>strtod\<close> and \<open>atoi\<close> of the C library, for the texts that reach them after
  validation: optional white space, an optional sign, decimal digits and, for \<open>strtod\<close>,
  at most one decimal point. \<open>strtod\<close> yields the decimal value itself (C rounds it to
  the nearest \<^verbatim>\<open>double\<close>); with no digit at all it yields 0. \<open>atoi\<close> yields the value
  as a 32-bit word (C leaves a value outside the range of \<^verbatim>\<open>int\<close> undefined).
\<close>

definition digitVal :: "char \<Rightarrow> nat" where
  "digitVal c = of_char c - 48"

definition digitsVal :: "string \<Rightarrow> nat" where
  "digitsVal ds = foldl (\<lambda>a c. 10 * a + digitVal c) 0 ds"

definition strtod :: "string \<Rightarrow> real" where
  "strtod s =
     (let s0 = dropWhile isspace s;
          neg = (s0 \<noteq> [] \<and> hd s0 = CHR ''-'');
          s1 = (if s0 \<noteq> [] \<and> (hd s0 = CHR ''-'' \<or> hd s0 = CHR ''+'') then tl s0 else s0);
          ip = takeWhile isdigit s1;
          r = dropWhile isdigit s1;
          fp = (if r \<noteq> [] \<and> hd r = CHR ''.'' then takeWhile isdigit (tl r) else []);
          v = real (digitsVal ip) + real (digitsVal fp) / 10 ^ length fp
      in if ip = [] \<and> fp = [] then 0 else if neg then - v else v)"

definition atoi :: "string \<Rightarrow> cint" where
  "atoi s =
     (let s0 = dropWhile isspace s;
          neg = (s0 \<noteq> [] \<and> hd s0 = CHR ''-'');
          s1 = (if s0 \<noteq> [] \<and> (hd s0 = CHR ''-'' \<or> hd s0 = CHR ''+'') then tl s0 else s0);
          v = int (digitsVal (takeWhile isdigit s1))
      in word_of_int (if neg then - v else v))"

definition getCoeffOfTerm :: "string \<Rightarrow> real" where
  "getCoeffOfTerm term =
     (let coeffStr = takeWhile (\<lambda>c. \<not> isXChar c) term
      in if coeffStr = [] then 1
         else if coeffStr = ''-'' then - 1
         else (let convertedCoeff = strtod coeffStr
               in if \<bar>convertedCoeff\<bar> = 0 then 0 else convertedCoeff))"

definition getExpOfTerm :: "string \<Rightarrow> cint" where
  "getExpOfTerm term =
     (let i = length (takeWhile (\<lambda>c. \<not> isXChar c) term)
      in if cnth term i = CHR 0x00 then 0
         else if isXChar (cnth term i) \<and> cnth term (i + 1) = CHR 0x00 then 1
         else atoi (drop (i + 2) term))"

subsection \<open>Construction from a string\<close>

function getMaxNumOfTerms_loop :: "string \<Rightarrow> int \<Rightarrow> int" where
  "getMaxNumOfTerms_loop s numTerms =
     (if s \<noteq> [] then
        (case nextComp s of
           (cmp, rest) \<Rightarrow>
             getMaxNumOfTerms_loop rest
               (if cmp \<noteq> [] \<and> cmp \<noteq> ''-'' \<and> cmp \<noteq> ''+'' then numTerms + 1 else numTerms))
      else numTerms)"
  by pat_completeness auto
termination
proof -
  have lt: "length rest < length s" if "(cmp, rest) = nextComp s" "s \<noteq> []" for s cmp rest
  proof (cases "isspace (hd s)")
    case True
    then have "length (dropWhile isspace s) < length s"
      using that(2) by (cases s) (auto simp: le_imp_less_Suc length_dropWhile_le)
    moreover have "length rest \<le> length (dropWhile isspace s)"
      using that(1) by (simp add: nextComp_def Let_def length_dropWhile_le)
    ultimately show ?thesis by simp
  next
    case False
    then have "rest = dropWhile (\<lambda>c. \<not> isspace c) (tl s)"
      using that by (cases s) (auto simp: nextComp_def Let_def)
    then have "length rest \<le> length (tl s)" by (metis length_dropWhile_le)
    then show ?thesis using that(2) by (cases s) auto
  qed
  show ?thesis
    by (relation "measure (\<lambda>(s, n). length s)") (auto intro: lt)
qed

declare getMaxNumOfTerms_loop.simps [simp del]

definition getMaxNumOfTerms :: "string \<Rightarrow> int" where
  "getMaxNumOfTerms polyStr = getMaxNumOfTerms_loop polyStr 0"

text \<open>The loop of \<open>newPoly\<close> on the rest of the string. State: the polynomial,
  \<open>opIsMinus\<close>, \<open>isFirstComp\<close>.\<close>

function newPolyLoop :: "(int \<Rightarrow> bool) \<Rightarrow> Poly \<Rightarrow> string \<Rightarrow> bool \<Rightarrow> bool \<Rightarrow> Status \<times> Poly" where
  "newPolyLoop alloc p s opIsMinus isFirstComp =
     (if s \<noteq> [] \<and> dropWhile isspace s \<noteq> [] then
        (case nextComp s of
           (cmp, rest) \<Rightarrow>
             if isOp cmp then newPolyLoop alloc p rest (cmp = ''-'') isFirstComp
             else
               (let c0 = getCoeffOfTerm cmp in
                if c0 \<noteq> 0 then
                  (let c = (if \<not> isFirstComp \<and> opIsMinus then c0 * - 1 else c0);
                       e = getExpOfTerm cmp
                   in case poly_addTerm alloc p e c of
                        (FAILURE, p1) \<Rightarrow> (FAILURE, p1)
                      | (SUCCESS, p1) \<Rightarrow> newPolyLoop alloc p1 rest opIsMinus False)
                else newPolyLoop alloc p rest opIsMinus False))
      else (SUCCESS, p))"
  by pat_completeness auto
termination
proof -
  have lt: "length rest < length s" if "(cmp, rest) = nextComp s" "s \<noteq> []" for s cmp rest
  proof (cases "isspace (hd s)")
    case True
    then have "length (dropWhile isspace s) < length s"
      using that(2) by (cases s) (auto simp: le_imp_less_Suc length_dropWhile_le)
    moreover have "length rest \<le> length (dropWhile isspace s)"
      using that(1) by (simp add: nextComp_def Let_def length_dropWhile_le)
    ultimately show ?thesis by simp
  next
    case False
    then have "rest = dropWhile (\<lambda>c. \<not> isspace c) (tl s)"
      using that by (cases s) (auto simp: nextComp_def Let_def)
    then have "length rest \<le> length (tl s)" by (metis length_dropWhile_le)
    then show ?thesis using that(2) by (cases s) auto
  qed
  show ?thesis
    by (relation "measure (\<lambda>(alloc, p, s, m, f). length s)") (auto intro: lt)
qed

declare newPolyLoop.simps [simp del]

definition newPoly :: "(int \<Rightarrow> bool) \<Rightarrow> Poly \<Rightarrow> string \<Rightarrow> Status \<times> Poly" where
  "newPoly alloc p polyStr = newPolyLoop alloc p polyStr False True"

text \<open>\<open>poly_initPolyStr\<close>: the handle returned and \<open>*pPolyStrIsValid\<close>.\<close>

definition poly_initPolyStr :: "bool \<Rightarrow> (int \<Rightarrow> bool) \<Rightarrow> string \<Rightarrow> Poly option \<times> bool" where
  "poly_initPolyStr mallocOk alloc polyStr =
     (if \<not> poly_isValidPolyStr polyStr then (None, False)
      else if \<not> mallocOk then (None, True)
      else (case newPoly alloc \<lparr>terms = [], cap = getMaxNumOfTerms polyStr\<rparr> polyStr of
              (FAILURE, p) \<Rightarrow> (None, True)
            | (SUCCESS, p) \<Rightarrow> (Some p, True)))"


subsection \<open>Printing\<close>

text \<open>
  \<open>printf("%d")\<close> and \<open>printf("%g")\<close> of the C library, returning the characters
  written. \<open>%g\<close> rounds to six significant digits (ties to even), writes the result in
  fixed notation when its decimal exponent \<open>X\<close> satisfies \<open>-4 \<le> X < 6\<close> and in
  exponent notation otherwise, and removes trailing zeros of the fraction.
\<close>

function natDigits :: "nat \<Rightarrow> string" where
  "natDigits n = (if n < 10 then [''0123456789'' ! n] else natDigits (n div 10) @ [''0123456789'' ! (n mod 10)])"
  by pat_completeness auto
termination
  by (relation "measure id") auto

declare natDigits.simps [simp del]

definition printf_d :: "cint \<Rightarrow> string" where
  "printf_d e = (if sint e < 0 then CHR ''-'' # natDigits (nat (- sint e)) else natDigits (nat (sint e)))"

definition roundHalfEven :: "real \<Rightarrow> int" where
  "roundHalfEven r =
     (let f = \<lfloor>r\<rfloor>; d = r - of_int f
      in if d < 1 / 2 then f else if d > 1 / 2 then f + 1 else if even f then f else f + 1)"

function decExpUp :: "real \<Rightarrow> int \<Rightarrow> int" where
  "decExpUp a e = (if 10 \<le> a then decExpUp (a / 10) (e + 1) else e)"
  by pat_completeness auto
termination
proof (relation "measure (\<lambda>(a, e). nat \<lfloor>a\<rfloor>)")
  show "wf (measure (\<lambda>(a, e). nat \<lfloor>a\<rfloor>))" by simp
next
  fix a :: real and e :: int
  assume a: "10 \<le> a"
  have "a / 10 \<le> a - 9" using a by simp
  then have "\<lfloor>a / 10\<rfloor> \<le> \<lfloor>a - 9\<rfloor>" by (rule floor_mono)
  also have "\<dots> = \<lfloor>a\<rfloor> - 9" by (metis floor_diff_numeral)
  finally have "\<lfloor>a / 10\<rfloor> < \<lfloor>a\<rfloor>" by simp
  moreover have "0 < \<lfloor>a\<rfloor>" using a by simp
  ultimately have "nat \<lfloor>a / 10\<rfloor> < nat \<lfloor>a\<rfloor>" by linarith
  then show "((a / 10, e + 1), a, e) \<in> measure (\<lambda>(a, e). nat \<lfloor>a\<rfloor>)" by simp
qed

declare decExpUp.simps [simp del]

function decExpDown :: "real \<Rightarrow> int \<Rightarrow> int" where
  "decExpDown a e = (if 0 < a \<and> a < 1 then decExpDown (a * 10) (e - 1) else e)"
  by pat_completeness auto
termination
proof (relation "measure (\<lambda>(a, e). nat \<lceil>1 / a\<rceil>)")
  show "wf (measure (\<lambda>(a, e). nat \<lceil>1 / a\<rceil>))" by simp
next
  fix a :: real and e :: int
  assume a: "0 < a \<and> a < 1"
  define x where "x = 1 / a"
  have x: "1 < x" using a by (simp add: x_def)
  have e: "1 / (a * 10) = x / 10" by (simp add: x_def)
  have "\<lceil>x / 10\<rceil> < \<lceil>x\<rceil>"
  proof (cases "x \<le> 10")
    case True
    then have "\<lceil>x / 10\<rceil> \<le> 1" by (simp add: ceiling_le_iff)
    moreover have "2 \<le> \<lceil>x\<rceil>" using x by (simp add: le_ceiling_iff)
    ultimately show ?thesis by linarith
  next
    case False
    then have "x / 10 + 1 \<le> x" by simp
    moreover have "of_int \<lceil>x / 10\<rceil> < x / 10 + 1" by linarith
    ultimately have "of_int \<lceil>x / 10\<rceil> < x" by linarith
    then show ?thesis by (simp add: less_ceiling_iff)
  qed
  moreover have "0 < \<lceil>x\<rceil>" using x by (simp add: less_ceiling_iff)
  ultimately have "nat \<lceil>1 / (a * 10)\<rceil> < nat \<lceil>1 / a\<rceil>"
    unfolding e x_def[symmetric] by linarith
  then show "((a * 10, e - 1), a, e) \<in> measure (\<lambda>(a, e). nat \<lceil>1 / a\<rceil>)" by simp
qed

declare decExpDown.simps [simp del]

text \<open>The decimal exponent of \<open>a > 0\<close>: the \<open>X\<close> with \<open>10^X \<le> a < 10^(X+1)\<close>.\<close>

definition decExp :: "real \<Rightarrow> int" where
  "decExp a = (if 1 \<le> a then decExpUp a 0 else decExpDown a 0)"

definition stripZeros :: "string \<Rightarrow> string" where
  "stripZeros ds = rev (dropWhile (\<lambda>c. c = CHR ''0'') (rev ds))"

definition padZeros :: "nat \<Rightarrow> string \<Rightarrow> string" where
  "padZeros k ds = replicate (k - length ds) (CHR ''0'') @ ds"

definition printf_g :: "real \<Rightarrow> string" where
  "printf_g x =
     (if x = 0 then ''0''
      else
        (let a = \<bar>x\<bar>;
             X0 = decExp a;
             m0 = roundHalfEven (a * 10 powi (5 - X0));
             X = (if m0 = 1000000 then X0 + 1 else X0);
             m = (if m0 = 1000000 then 100000 else nat m0);
             sgn = (if x < 0 then ''-'' else [])
         in if - 4 \<le> X \<and> X < 6 then
              (let fd = nat (5 - X);
                   fp = stripZeros (padZeros fd (natDigits (m mod 10 ^ fd)))
               in sgn @ natDigits (m div 10 ^ fd) @ (if fp = [] then [] else CHR ''.'' # fp))
            else
              (let ds = natDigits m;
                   fp = stripZeros (tl ds);
                   ex = natDigits (nat \<bar>X\<bar>)
               in sgn @ [hd ds] @ (if fp = [] then [] else CHR ''.'' # fp) @ ''e''
                  @ (if X < 0 then ''-'' else ''+'') @ (if length ex < 2 then CHR ''0'' # ex else ex))))"

text \<open>What \<open>poly_print\<close> writes for the term at index \<open>i\<close> (\<open>first\<close> says \<open>i = 0\<close>): the
  coefficient, then \<open>x\<close> and the exponent.\<close>

definition printTerm :: "bool \<Rightarrow> PolyTerm \<Rightarrow> string" where
  "printTerm first t =
     (if exp_t t = 0 then
        (if first then printf_g (coeff t) else printf_g \<bar>coeff t\<bar>)
      else
        (if first then
           (if coeff t = - 1 then ''-'' else if coeff t \<noteq> 1 then printf_g (coeff t) else [])
         else
           (if \<bar>coeff t\<bar> \<noteq> 1 then printf_g \<bar>coeff t\<bar> else [])))
     @ (if exp_t t \<noteq> 0 then
          ''x'' @ (if exp_t t \<noteq> 1 then CHR ''^'' # printf_d (exp_t t) else [])
        else [])"

fun printLoop :: "bool \<Rightarrow> PolyTerm list \<Rightarrow> string" where
  "printLoop first [] = []"
| "printLoop first [t] = printTerm first t"
| "printLoop first (t # u # ts) =
     printTerm first t @ (if coeff u < 0 then '' - '' else '' + '') @ printLoop False (u # ts)"

text \<open>\<open>poly_print\<close>: status and the characters written to stdout.\<close>

definition poly_print :: "Poly \<Rightarrow> Status \<times> string" where
  "poly_print p = (if poly_hasNoTerms p then (FAILURE, []) else (SUCCESS, printLoop True (terms p)))"

subsection \<open>Texts that read back\<close>

text \<open>
  A coefficient prints exactly when the text that \<open>%g\<close> writes for it has only valid
  component characters, is accepted as one number by \<open>inputsAreValidDoubles\<close>, and is read
  back by \<open>strtod\<close> as the same value.
\<close>

definition printsExactly :: "real \<Rightarrow> bool" where
  "printsExactly c \<longleftrightarrow>
     allCompCharsAreValid (printf_g c) \<and> inputsAreValidDoubles (printf_g c) 1
     \<and> strtod (printf_g c) = c"

text \<open>The shape of what \<open>printTerm\<close> and \<open>printLoop\<close> write, used in the proofs: the text of
  a term with coefficient value \<open>v\<close> (the coefficient or its absolute value), the operator
  in front of a term that is not the first, and the text after the first term.\<close>

definition termText :: "real \<Rightarrow> cint \<Rightarrow> string" where
  "termText v e =
     (if e = 0 then printf_g v
      else (if v = - 1 then ''-'' else if v \<noteq> 1 then printf_g v else [])
           @ ''x'' @ (if e \<noteq> 1 then CHR ''^'' # printf_d e else []))"

definition opText :: "PolyTerm \<Rightarrow> string" where
  "opText u = (if coeff u < 0 then ''-'' else ''+'')"

fun restText :: "PolyTerm list \<Rightarrow> string" where
  "restText [] = []"
| "restText (u # us) = (if coeff u < 0 then '' - '' else '' + '') @ printTerm False u @ restText us"

section \<open>Properties of the polynomial model\<close>

lemma indexFrom_first:
  "list_ex (\<lambda>t. exp_t t = e) ts \<Longrightarrow>
   \<exists>k<length ts. indexFrom ts e i = i + int k \<and> exp_t (ts ! k) = e \<and> (\<forall>m<k. exp_t (ts ! m) \<noteq> e)"
proof (induction ts arbitrary: i)
  case Nil
  then show ?case by simp
next
  case (Cons t ts)
  show ?case
  proof (cases "exp_t t = e")
    case True
    then show ?thesis by (intro exI[of _ 0]) simp
  next
    case False
    with Cons.prems have "list_ex (\<lambda>t. exp_t t = e) ts" by simp
    from Cons.IH[OF this, of "i + 1"] obtain k where
      k: "k < length ts" "indexFrom ts e (i + 1) = i + 1 + int k" "exp_t (ts ! k) = e"
         "\<forall>m<k. exp_t (ts ! m) \<noteq> e" by blast
    show ?thesis
    proof (intro exI[of _ "Suc k"] conjI allI impI)
      fix m assume "m < Suc k"
      then show "exp_t ((t # ts) ! m) \<noteq> e" using False k(4) by (cases m) auto
    qed (use False k in auto)
  qed
qed

lemma shiftLeft_butlast:
  "i < length ts \<Longrightarrow> butlast (shiftLeft ts i) = take i ts @ drop (Suc i) ts"
proof (induction ts i rule: shiftLeft.induct)
  case (1 ts i)
  show ?case
  proof (cases "i + 1 < length ts")
    case True
    have "butlast (shiftLeft ts i) = butlast (shiftLeft (ts[i := ts ! (i + 1)]) (i + 1))"
      using True by (subst shiftLeft.simps) simp
    also have "\<dots> = take (i + 1) (ts[i := ts ! (i + 1)]) @ drop (Suc (i + 1)) (ts[i := ts ! (i + 1)])"
      using "1.IH"[OF True] True by simp
    also have "\<dots> = take i ts @ drop (Suc i) ts"
      using True by (simp add: take_Suc_conv_app_nth Cons_nth_drop_Suc)
    finally show ?thesis .
  next
    case False
    with "1.prems" have "length ts = Suc i" by simp
    then show ?thesis using False by (subst shiftLeft.simps) (simp add: butlast_conv_take)
  qed
qed

lemma getIndex_props:
  assumes "poly_existsTermWithExp p e"
  obtains k where "k < length (terms p)" "getIndexOfTermWithExp p e = int k"
    "exp_t (terms p ! k) = e" "\<forall>m<k. exp_t (terms p ! m) \<noteq> e"
  using indexFrom_first[of e "terms p" 0] assms
  unfolding poly_existsTermWithExp_def getIndexOfTermWithExp_def by auto



lemma distinct_delete_nth:
  assumes "distinct xs" shows "distinct (take k xs @ drop (Suc k) xs)"
proof -
  have "distinct (take k xs @ drop k xs)" using assms by simp
  then have "set (take k xs) \<inter> set (drop k xs) = {}" "distinct (take k xs)"
    by (simp_all only: distinct_append) 
  moreover have "set (drop (Suc k) xs) \<subseteq> set (drop k xs)"
    by (simp add: set_drop_subset_set_drop)
  ultimately show ?thesis using assms by (auto simp: distinct_drop)
qed

lemma list_all_delete_nth:
  "list_all P xs \<Longrightarrow> list_all P (take k xs @ drop (Suc k) xs)"
  by (auto simp: list_all_iff dest: in_set_takeD in_set_dropD)

lemma inv_delete_nth:
  assumes "poly_inv p"
  shows "poly_inv (p\<lparr>terms := take k (terms p) @ drop (Suc k) (terms p)\<rparr>)"
proof -
  have "distinct (take k (map exp_t (terms p)) @ drop (Suc k) (map exp_t (terms p)))"
    using assms by (intro distinct_delete_nth) (simp add: poly_inv_def)
  then have d: "distinct (map exp_t (take k (terms p) @ drop (Suc k) (terms p)))"
    by (simp add: take_map drop_map)
  have l: "list_all (\<lambda>t. coeff t \<noteq> 0) (take k (terms p) @ drop (Suc k) (terms p))"
    using assms unfolding poly_inv_def by (intro list_all_delete_nth) simp
  show ?thesis unfolding poly_inv_def using d l by simp
qed


subsection \<open>Insertion: the three cases of \<open>poly_addTerm\<close>\<close>

lemma addTerm_absent_zero:
  "\<not> poly_existsTermWithExp p e \<Longrightarrow> poly_addTerm alloc p e 0 = (SUCCESS, p)"
  by (simp add: poly_addTerm_def)

lemma addTerm_absent:
  assumes "\<not> poly_existsTermWithExp p e" "c \<noteq> 0"
  shows "poly_addTerm alloc p e c =
    (if int (psize p) = cap p then
       (if alloc (cap p + 1)
        then (SUCCESS, p\<lparr>terms := terms p @ [\<lparr>exp_t = e, coeff = c\<rparr>], cap := cap p + 1\<rparr>)
        else (FAILURE, p))
     else (SUCCESS, p\<lparr>terms := terms p @ [\<lparr>exp_t = e, coeff = c\<rparr>]\<rparr>))"
  using assms by (simp add: poly_addTerm_def resize_def)

lemma remove_after_update:
  assumes k: "k < length (terms p)" "exp_t (terms p ! k) = e"
    "\<forall>m<k. exp_t (terms p ! m) \<noteq> e" and t': "exp_t t' = e"
  shows "poly_removeTermWithExp (p\<lparr>terms := (terms p)[k := t']\<rparr>) e =
     (SUCCESS, p\<lparr>terms := take k (terms p) @ drop (Suc k) (terms p)\<rparr>)"
proof -
  define p1 where "p1 = p\<lparr>terms := (terms p)[k := t']\<rparr>"
  have ex1: "poly_existsTermWithExp p1 e"
    using k(1) t' unfolding poly_existsTermWithExp_def p1_def list_ex_iff
    by (auto simp: set_conv_nth nth_list_update intro!: exI[of _ k])
  from getIndex_props[OF ex1] obtain k' where
    k': "k' < length (terms p1)" "getIndexOfTermWithExp p1 e = int k'"
    "exp_t (terms p1 ! k') = e" "\<forall>m<k'. exp_t (terms p1 ! m) \<noteq> e" by blast
  have e1: "\<And>m. m < length (terms p) \<Longrightarrow> exp_t (terms p1 ! m) = exp_t (terms p ! m)"
    using k(1,2) t' by (auto simp: p1_def nth_list_update)
  have "k' = k"
  proof (rule ccontr)
    assume "k' \<noteq> k"
    then consider "k' < k" | "k < k'" by linarith
    then show False
    proof cases
      case 1 then show ?thesis using k(3) k'(3) e1[of k'] k(1) by auto
    next
      case 2 then show ?thesis using k'(4) k(2) e1[of k] k(1) by auto
    qed
  qed
  then have "poly_removeTermWithExp p1 e =
     (SUCCESS, p\<lparr>terms := take k (terms p) @ drop (Suc k) (terms p)\<rparr>)"
    using ex1 k'(2) k(1)
    by (simp add: poly_removeTermWithExp_def shiftLeft_butlast p1_def)
  then show ?thesis by (simp add: p1_def)
qed

lemma addTerm_present:
  assumes "poly_existsTermWithExp p e"
  obtains k where "k < length (terms p)" "exp_t (terms p ! k) = e"
    "\<forall>m<k. exp_t (terms p ! m) \<noteq> e"
    "poly_addTerm alloc p e c =
      (if coeff (terms p ! k) + c = 0
       then (SUCCESS, p\<lparr>terms := take k (terms p) @ drop (Suc k) (terms p)\<rparr>)
       else (SUCCESS, p\<lparr>terms := (terms p)[k := (terms p ! k)\<lparr>coeff := coeff (terms p ! k) + c\<rparr>]\<rparr>))"
proof -
  from getIndex_props[OF assms] obtain k where
    k: "k < length (terms p)" "getIndexOfTermWithExp p e = int k"
    "exp_t (terms p ! k) = e" "\<forall>m<k. exp_t (terms p ! m) \<noteq> e" by blast
  have "poly_addTerm alloc p e c =
      (if coeff (terms p ! k) + c = 0
       then (SUCCESS, p\<lparr>terms := take k (terms p) @ drop (Suc k) (terms p)\<rparr>)
       else (SUCCESS, p\<lparr>terms := (terms p)[k := (terms p ! k)\<lparr>coeff := coeff (terms p ! k) + c\<rparr>]\<rparr>))"
    using assms k(1,2) remove_after_update[OF k(1,3,4), of "(terms p ! k)\<lparr>coeff := 0\<rparr>"] k(3)
    by (simp add: poly_addTerm_def Let_def)
  with k show ?thesis using that by blast
qed

lemma inv_update_coeff:
  assumes "poly_inv p" "k < length (terms p)" "v \<noteq> 0"
  shows "poly_inv (p\<lparr>terms := (terms p)[k := (terms p ! k)\<lparr>coeff := v\<rparr>]\<rparr>)"
proof -
  have "map exp_t ((terms p)[k := (terms p ! k)\<lparr>coeff := v\<rparr>]) = map exp_t (terms p)"
    using assms(2) by (simp add: map_update list_update_same_conv)
  moreover have "list_all (\<lambda>t. coeff t \<noteq> 0) ((terms p)[k := (terms p ! k)\<lparr>coeff := v\<rparr>])"
    using assms unfolding poly_inv_def list_all_iff
    by (auto dest!: set_update_subset_insert[THEN subsetD])
  ultimately show ?thesis using assms(1) by (simp add: poly_inv_def)
qed

lemma inv_append:
  assumes "poly_inv p" "\<not> poly_existsTermWithExp p e" "c \<noteq> 0"
  shows "poly_inv (p\<lparr>terms := terms p @ [\<lparr>exp_t = e, coeff = c\<rparr>]\<rparr>)"
  using assms by (auto simp: poly_inv_def poly_existsTermWithExp_def list_ex_iff)

lemma inv_addTerm:
  assumes "poly_inv p"
  shows "poly_inv (snd (poly_addTerm alloc p e c))"
proof (cases "poly_existsTermWithExp p e")
  case True
  from addTerm_present[OF True, of alloc c] obtain k where
    k: "k < length (terms p)" and
    eq: "poly_addTerm alloc p e c =
      (if coeff (terms p ! k) + c = 0
       then (SUCCESS, p\<lparr>terms := take k (terms p) @ drop (Suc k) (terms p)\<rparr>)
       else (SUCCESS, p\<lparr>terms := (terms p)[k := (terms p ! k)\<lparr>coeff := coeff (terms p ! k) + c\<rparr>]\<rparr>))"
    by blast
  show ?thesis
  proof (cases "coeff (terms p ! k) + c = 0")
    case True
    then show ?thesis using eq inv_delete_nth[OF assms, of k] by simp
  next
    case False
    then show ?thesis using eq inv_update_coeff[OF assms k False] by simp
  qed
next
  case False
  show ?thesis
  proof (cases "c = 0")
    case True
    then show ?thesis using False assms by (simp add: addTerm_absent_zero)
  next
    case c: False
    have a: "poly_inv (p\<lparr>terms := terms p @ [\<lparr>exp_t = e, coeff = c\<rparr>]\<rparr>)"
      by (rule inv_append[OF assms False c])
    then have b: "poly_inv (p\<lparr>terms := terms p @ [\<lparr>exp_t = e, coeff = c\<rparr>], cap := cap p + 1\<rparr>)"
      by (simp add: poly_inv_def)
    show ?thesis using a b assms by (simp add: addTerm_absent[OF False c])
  qed
qed

text \<open>
  C10: \<open>poly_addTerm\<close> fails only when a new term has to be appended, the array is full
  and realloc refuses to grow it. When a term with the exponent exists, or the coefficient
  is 0, or the size is below the capacity, it returns SUCCESS whatever the allocator does.
  Adding the coefficient 0 at an exponent that a valid polynomial already has returns
  SUCCESS and leaves the polynomial as it was.
\<close>

theorem C10_addTerm_failure:
  "(poly_existsTermWithExp p e \<or> c = 0 \<or> int (psize p) < cap p
      \<longrightarrow> fst (poly_addTerm alloc p e c) = SUCCESS)
   \<and> (fst (poly_addTerm alloc p e c) = FAILURE
      \<longrightarrow> \<not> poly_existsTermWithExp p e \<and> c \<noteq> 0 \<and> int (psize p) = cap p \<and> \<not> alloc (cap p + 1))
   \<and> (poly_inv p \<and> poly_existsTermWithExp p e \<longrightarrow> poly_addTerm alloc p e 0 = (SUCCESS, p))"
proof (intro conjI impI)
  assume "poly_existsTermWithExp p e \<or> c = 0 \<or> int (psize p) < cap p"
  then show "fst (poly_addTerm alloc p e c) = SUCCESS"
    by (auto simp: poly_addTerm_def Let_def resize_def)
next
  assume f: "fst (poly_addTerm alloc p e c) = FAILURE"
  then show "\<not> poly_existsTermWithExp p e"
    by (auto simp: poly_addTerm_def Let_def split: if_splits)
  from f show "c \<noteq> 0" by (auto simp: poly_addTerm_def Let_def split: if_splits)
  from f show "int (psize p) = cap p"
    by (auto simp: poly_addTerm_def Let_def split: if_splits)
  from f show "\<not> alloc (cap p + 1)"
    by (auto simp: poly_addTerm_def Let_def resize_def split: if_splits)
next
  assume a: "poly_inv p \<and> poly_existsTermWithExp p e"
  from addTerm_present[of p e alloc 0] a obtain k where
    k: "k < length (terms p)" and
    eq: "poly_addTerm alloc p e 0 =
      (if coeff (terms p ! k) + 0 = 0
       then (SUCCESS, p\<lparr>terms := take k (terms p) @ drop (Suc k) (terms p)\<rparr>)
       else (SUCCESS, p\<lparr>terms := (terms p)[k := (terms p ! k)\<lparr>coeff := coeff (terms p ! k) + 0\<rparr>]\<rparr>))"
    by blast
  have "coeff (terms p ! k) \<noteq> 0"
    using a k by (simp add: poly_inv_def list_all_length)
  then show "poly_addTerm alloc p e 0 = (SUCCESS, p)"
    using eq by simp
qed

theorem C10_addTerm_failure_witness:
  "poly_inv \<lparr>terms = [\<lparr>exp_t = 2, coeff = 5\<rparr>], cap = 1\<rparr>
   \<and> poly_existsTermWithExp \<lparr>terms = [\<lparr>exp_t = 2, coeff = 5\<rparr>], cap = 1\<rparr> 2
   \<and> fst (poly_addTerm allocNever \<lparr>terms = [\<lparr>exp_t = 2, coeff = 5\<rparr>], cap = 1\<rparr> 2 0) = SUCCESS
   \<and> poly_addTerm allocNever \<lparr>terms = [\<lparr>exp_t = 2, coeff = 5\<rparr>], cap = 1\<rparr> 2 0
       = (SUCCESS, \<lparr>terms = [\<lparr>exp_t = 2, coeff = 5\<rparr>], cap = 1\<rparr>)
   \<and> fst (poly_addTerm allocNever \<lparr>terms = [\<lparr>exp_t = 2, coeff = 5\<rparr>], cap = 1\<rparr> 3 4) = FAILURE
   \<and> int (psize \<lparr>terms = [\<lparr>exp_t = 2, coeff = 5\<rparr>], cap = 1\<rparr>) = 1"
proof -
  let ?p = "\<lparr>terms = [\<lparr>exp_t = 2, coeff = 5\<rparr>], cap = 1\<rparr>"
  have i: "poly_inv ?p" by (simp add: poly_inv_def)
  have e: "poly_existsTermWithExp ?p 2" by (simp add: poly_existsTermWithExp_def)
  have f: "fst (poly_addTerm allocNever ?p 3 4) = FAILURE"
    by (simp add: poly_addTerm_def poly_existsTermWithExp_def psize_def resize_def allocNever_def)
  show ?thesis
    using C10_addTerm_failure[of ?p 2 0 allocNever] i e f by (simp add: psize_def)
qed

text \<open>
  C4 as stated fails: when the polynomial already has a term of exponent \<open>e\<close>, the two
  insertions add \<open>c\<close> and then \<open>-c\<close> to its coefficient. Here \<open>-3x^2\<close> plus \<open>3x^2\<close>
  removes the term, and the insertion of \<open>-3x^2\<close> that follows appends it again.
\<close>

theorem C4_cancel_counterexample:
  "poly_existsTermWithExp
     (snd (poly_addTerm allocAlways
        (snd (poly_addTerm allocAlways \<lparr>terms = [\<lparr>exp_t = 2, coeff = -3\<rparr>], cap = 1\<rparr> 2 3)) 2 (-3))) 2"
proof -
  let ?p = "\<lparr>terms = [\<lparr>exp_t = 2, coeff = -3\<rparr>], cap = (1::int)\<rparr>"
  have 1: "poly_addTerm allocAlways ?p 2 3 = (SUCCESS, \<lparr>terms = [], cap = 1\<rparr>)"
    by (simp add: poly_addTerm_def poly_existsTermWithExp_def getIndexOfTermWithExp_def
        poly_removeTermWithExp_def shiftLeft.simps)
  have 2: "poly_addTerm allocAlways \<lparr>terms = [], cap = 1\<rparr> 2 (-3)
             = (SUCCESS, \<lparr>terms = [\<lparr>exp_t = 2, coeff = -3\<rparr>], cap = 1\<rparr>)"
    by (simp add: poly_addTerm_def poly_existsTermWithExp_def psize_def)
  show ?thesis by (simp add: 1 2 poly_existsTermWithExp_def)
qed

text \<open>
  C4, amended: when the polynomial has no term of exponent \<open>e\<close> and the insertion of
  \<open>(e, c)\<close> succeeds, the insertion of \<open>(e, -c)\<close> succeeds as well and leaves no term of
  exponent \<open>e\<close>; the terms are again those before the two calls.
\<close>

theorem C4_cancel_fresh_exponent:
  assumes ne: "\<not> poly_existsTermWithExp p e"
    and ok: "fst (poly_addTerm a1 p e c) = SUCCESS"
  shows "fst (poly_addTerm a2 (snd (poly_addTerm a1 p e c)) e (- c)) = SUCCESS
    \<and> \<not> poly_existsTermWithExp (snd (poly_addTerm a2 (snd (poly_addTerm a1 p e c)) e (- c))) e
    \<and> terms (snd (poly_addTerm a2 (snd (poly_addTerm a1 p e c)) e (- c))) = terms p"
proof (cases "c = 0")
  case True
  then show ?thesis using ne by (simp add: addTerm_absent_zero)
next
  case False
  define p1 where "p1 = snd (poly_addTerm a1 p e c)"
  have t1: "terms p1 = terms p @ [\<lparr>exp_t = e, coeff = c\<rparr>]"
    using ok unfolding p1_def addTerm_absent[OF ne False] by (auto split: if_splits)
  have ex1: "poly_existsTermWithExp p1 e"
    by (simp add: poly_existsTermWithExp_def t1)
  from addTerm_present[OF ex1, of a2 "- c"] obtain k where
    k: "k < length (terms p1)" "exp_t (terms p1 ! k) = e" and
    eq: "poly_addTerm a2 p1 e (- c) =
      (if coeff (terms p1 ! k) + - c = 0
       then (SUCCESS, p1\<lparr>terms := take k (terms p1) @ drop (Suc k) (terms p1)\<rparr>)
       else (SUCCESS, p1\<lparr>terms := (terms p1)[k := (terms p1 ! k)\<lparr>coeff := coeff (terms p1 ! k) + - c\<rparr>]\<rparr>))"
    by blast
  have kk: "k = length (terms p)"
  proof (rule ccontr)
    assume "k \<noteq> length (terms p)"
    with k(1) have lt: "k < length (terms p)" by (simp add: t1)
    then have "exp_t (terms p ! k) = e" using k(2) by (simp add: t1 nth_append)
    then show False using ne lt by (auto simp: poly_existsTermWithExp_def list_ex_iff)
  qed
  have r: "poly_addTerm a2 p1 e (- c) = (SUCCESS, p1\<lparr>terms := terms p\<rparr>)"
    using eq by (simp add: kk t1)
  show ?thesis
    unfolding p1_def[symmetric] r using ne by (simp add: poly_existsTermWithExp_def)
qed

theorem C4_cancel_fresh_exponent_witness:
  "\<not> poly_existsTermWithExp \<lparr>terms = [\<lparr>exp_t = 1, coeff = 4\<rparr>], cap = 1\<rparr> 2
   \<and> fst (poly_addTerm allocAlways \<lparr>terms = [\<lparr>exp_t = 1, coeff = 4\<rparr>], cap = 1\<rparr> 2 3) = SUCCESS
   \<and> terms (snd (poly_addTerm allocAlways
        (snd (poly_addTerm allocAlways \<lparr>terms = [\<lparr>exp_t = 1, coeff = 4\<rparr>], cap = 1\<rparr> 2 3)) 2 (- 3)))
      = [\<lparr>exp_t = 1, coeff = 4\<rparr>]"
proof -
  let ?p = "\<lparr>terms = [\<lparr>exp_t = 1, coeff = 4\<rparr>], cap = (1::int)\<rparr>"
  have ne: "\<not> poly_existsTermWithExp ?p 2" by (simp add: poly_existsTermWithExp_def)
  have ok: "fst (poly_addTerm allocAlways ?p 2 3) = SUCCESS"
    by (simp add: poly_addTerm_def poly_existsTermWithExp_def psize_def resize_def allocAlways_def)
  show ?thesis using C4_cancel_fresh_exponent[OF ne ok, of allocAlways] ne ok by simp
qed

lemma diffLoop_gen:
  "j \<le> i \<Longrightarrow> i \<le> length ts \<Longrightarrow>
   length (fst (diffLoop ts i j c)) = length ts \<and>
   take (j + length (filter (\<lambda>d. \<not> (coeff d = 0 \<and> exp_t d = 0)) (map diffTerm (drop i ts))))
        (fst (diffLoop ts i j c))
     = take j ts @ filter (\<lambda>d. \<not> (coeff d = 0 \<and> exp_t d = 0)) (map diffTerm (drop i ts)) \<and>
   snd (diffLoop ts i j c)
     = (c \<or> (\<exists>t\<in>set (drop i ts). coeff (diffTerm t) = 0 \<and> exp_t (diffTerm t) = 0))"
proof (induction ts i j c rule: diffLoop.induct)
  case (1 ts i j c)
  show ?case
  proof (cases "i < length ts")
    case False
    with "1.prems" have "i = length ts" by simp
    then show ?thesis by (subst (1 2 3) diffLoop.simps) simp
  next
    case True
    define d where "d = diffTerm (ts ! i)"
    have dr: "drop i ts = ts ! i # drop (Suc i) ts"
      using True by (simp add: Cons_nth_drop_Suc)
    show ?thesis
    proof (cases "coeff d = 0 \<and> exp_t d = 0")
      case z: True
      have eq: "diffLoop ts i j c = diffLoop ts (i + 1) j True"
        using True z by (subst diffLoop.simps) (simp add: d_def Let_def)
      have ih: "length (fst (diffLoop ts (i + 1) j True)) = length ts \<and>
         take (j + length (filter (\<lambda>d. \<not> (coeff d = 0 \<and> exp_t d = 0)) (map diffTerm (drop (i + 1) ts))))
            (fst (diffLoop ts (i + 1) j True))
          = take j ts @ filter (\<lambda>d. \<not> (coeff d = 0 \<and> exp_t d = 0)) (map diffTerm (drop (i + 1) ts)) \<and>
         snd (diffLoop ts (i + 1) j True)
          = (True \<or> (\<exists>t\<in>set (drop (i + 1) ts). coeff (diffTerm t) = 0 \<and> exp_t (diffTerm t) = 0))"
        using "1.IH"(2)[OF True d_def] z "1.prems" True by simp
      show ?thesis unfolding eq dr using ih z by (simp add: d_def)
    next
      case k: False
      let ?ts = "ts[j := d]"
      have eq: "diffLoop ts i j c = diffLoop ?ts (i + 1) (j + 1) c"
        using True k by (subst diffLoop.simps) (simp add: d_def Let_def)
      have dr': "drop (i + 1) ?ts = drop (i + 1) ts"
        using "1.prems" by simp
      have tk: "take (j + 1) ?ts = take j ts @ [d]"
        using "1.prems" True by (simp add: take_Suc_conv_app_nth)
      have ih: "length (fst (diffLoop ?ts (i + 1) (j + 1) c)) = length ?ts \<and>
         take (j + 1 + length (filter (\<lambda>d. \<not> (coeff d = 0 \<and> exp_t d = 0)) (map diffTerm (drop (i + 1) ?ts))))
            (fst (diffLoop ?ts (i + 1) (j + 1) c))
          = take (j + 1) ?ts @ filter (\<lambda>d. \<not> (coeff d = 0 \<and> exp_t d = 0)) (map diffTerm (drop (i + 1) ?ts)) \<and>
         snd (diffLoop ?ts (i + 1) (j + 1) c)
          = (c \<or> (\<exists>t\<in>set (drop (i + 1) ?ts). coeff (diffTerm t) = 0 \<and> exp_t (diffTerm t) = 0))"
        using "1.IH"(1)[OF True d_def] k "1.prems" True by simp
      show ?thesis unfolding eq dr using ih k unfolding dr' tk by (auto simp: d_def)
    qed
  qed
qed

lemma diffTerm_keep:
  "coeff t \<noteq> 0 \<Longrightarrow> (coeff (diffTerm t) = 0 \<and> exp_t (diffTerm t) = 0) = (exp_t t = 0)"
  by (simp add: diffTerm_def signed_eq_0_iff)

lemma distinct_filter_le1:
  "distinct (map f xs) \<Longrightarrow> length (filter (\<lambda>x. f x = e) xs) \<le> 1"
proof (induction xs)
  case Nil
  then show ?case by simp
next
  case (Cons x xs)
  show ?case
  proof (cases "f x = e")
    case True
    with Cons.prems have "\<forall>y\<in>set xs. f y \<noteq> e" by (auto simp: image_iff)
    then have "filter (\<lambda>x. f x = e) xs = []" by (simp add: filter_empty_conv)
    then show ?thesis using True by simp
  next
    case False
    then show ?thesis using Cons by simp
  qed
qed

lemma diffPoly_inv_eq:
  assumes inv: "poly_inv p" and ne: "psize p \<noteq> 0"
  shows "diffPoly p = (SUCCESS, p\<lparr>terms := map diffTerm (filter (\<lambda>t. exp_t t \<noteq> 0) (terms p))\<rparr>)"
proof -
  let ?ts = "terms p"
  let ?K = "map diffTerm (filter (\<lambda>t. exp_t t \<noteq> 0) ?ts)"
  obtain r c where rc: "diffLoop ?ts 0 0 False = (r, c)" by (cases "diffLoop ?ts 0 0 False")
  have nz: "\<forall>t\<in>set ?ts. coeff t \<noteq> 0" using inv by (simp add: poly_inv_def list_all_iff)
  have K: "filter (\<lambda>d. \<not> (coeff d = 0 \<and> exp_t d = 0)) (map diffTerm ?ts) = ?K"
    unfolding filter_map comp_def
    by (rule arg_cong[where f="map diffTerm"], rule filter_cong) (use nz diffTerm_keep in auto)
  have g: "length (fst (diffLoop ?ts 0 0 False)) = length ?ts \<and>
     take (0 + length (filter (\<lambda>d. \<not> (coeff d = 0 \<and> exp_t d = 0)) (map diffTerm (drop 0 ?ts))))
        (fst (diffLoop ?ts 0 0 False))
       = take 0 ?ts @ filter (\<lambda>d. \<not> (coeff d = 0 \<and> exp_t d = 0)) (map diffTerm (drop 0 ?ts)) \<and>
     snd (diffLoop ?ts 0 0 False)
       = (False \<or> (\<exists>t\<in>set (drop 0 ?ts). coeff (diffTerm t) = 0 \<and> exp_t (diffTerm t) = 0))"
    by (rule diffLoop_gen) simp_all
  have len: "length r = length ?ts" using g rc by simp
  have tk: "take (length ?K) r = ?K" using g unfolding drop_0 K rc by simp
  have "c = (\<exists>t\<in>set ?ts. coeff (diffTerm t) = 0 \<and> exp_t (diffTerm t) = 0)"
    using g unfolding drop_0 rc by simp
  then have fl: "c = (\<exists>t\<in>set ?ts. exp_t t = 0)"
    using nz diffTerm_keep by auto
  have sum: "length (filter (\<lambda>t. exp_t t \<noteq> 0) ?ts) + length (filter (\<lambda>t. exp_t t = 0) ?ts) = length ?ts"
    using sum_length_filter_compl[of "\<lambda>t. exp_t t \<noteq> 0" ?ts] by simp
  have le1: "length (filter (\<lambda>t. exp_t t = 0) ?ts) \<le> 1"
    using inv by (intro distinct_filter_le1) (simp add: poly_inv_def)
  have "(if c then butlast r else r) = ?K"
  proof (cases c)
    case True
    then have "filter (\<lambda>t. exp_t t = 0) ?ts \<noteq> []" using fl by (simp add: filter_empty_conv)
    then have "length (filter (\<lambda>t. exp_t t = 0) ?ts) = 1" using le1
      by (cases "filter (\<lambda>t. exp_t t = 0) ?ts") auto
    then have "length ?K = length r - 1" using sum len by simp
    then show ?thesis using tk True by (simp add: butlast_conv_take)
  next
    case False
    then have "filter (\<lambda>t. exp_t t = 0) ?ts = []" using fl by (simp add: filter_empty_conv)
    then have "length ?K = length r" using sum len by simp
    then show ?thesis using tk False by simp
  qed
  then show ?thesis using ne rc by (simp add: diffPoly_def)
qed



text \<open>
  C1: the polynomial of \<open>x^2 + x + 1\<close> and \<open>n = 3\<close>. The third call of \<open>diffPoly\<close> removes
  the last term and returns SUCCESS, so the loop ends with the flag still FALSE: the
  polynomial has no terms and \<open>*pNthDerivIsZero\<close> is FALSE. The flag is set only by a call
  of \<open>diffPoly\<close> that finds the polynomial already without terms, here with \<open>n = 4\<close>.
\<close>

theorem C1_nthDeriv_flag_after_three_steps:
  "poly_initPolyStr True allocNever ''x^2 + x + 1''
     = (Some \<lparr>terms = [\<lparr>exp_t = 2, coeff = 1\<rparr>, \<lparr>exp_t = 1, coeff = 1\<rparr>, \<lparr>exp_t = 0, coeff = 1\<rparr>], cap = 3\<rparr>, True)
   \<and> poly_calcNthDeriv
       \<lparr>terms = [\<lparr>exp_t = 2, coeff = 1\<rparr>, \<lparr>exp_t = 1, coeff = 1\<rparr>, \<lparr>exp_t = 0, coeff = 1\<rparr>], cap = 3\<rparr> 3
     = (SUCCESS, \<lparr>terms = [], cap = 3\<rparr>, False)
   \<and> poly_calcNthDeriv
       \<lparr>terms = [\<lparr>exp_t = 2, coeff = 1\<rparr>, \<lparr>exp_t = 1, coeff = 1\<rparr>, \<lparr>exp_t = 0, coeff = 1\<rparr>], cap = 3\<rparr> 4
     = (SUCCESS, \<lparr>terms = [], cap = 3\<rparr>, True)"
proof -
  let ?p0 = "\<lparr>terms = [\<lparr>exp_t = 2, coeff = 1\<rparr>, \<lparr>exp_t = 1, coeff = 1\<rparr>, \<lparr>exp_t = 0, coeff = 1\<rparr>], cap = (3::int)\<rparr>"
  let ?p1 = "\<lparr>terms = [\<lparr>exp_t = 1, coeff = 2\<rparr>, \<lparr>exp_t = 0, coeff = 1\<rparr>], cap = (3::int)\<rparr>"
  let ?p2 = "\<lparr>terms = [\<lparr>exp_t = 0, coeff = 2\<rparr>], cap = (3::int)\<rparr>"
  let ?p3 = "\<lparr>terms = [], cap = (3::int)\<rparr>"
  have s: "poly_initPolyStr True allocNever ''x^2 + x + 1'' = (Some ?p0, True)"
    by code_simp
  have d1: "diffPoly ?p0 = (SUCCESS, ?p1)"
    by (subst diffPoly_inv_eq) (simp_all add: poly_inv_def psize_def diffTerm_def)
  have d2: "diffPoly ?p1 = (SUCCESS, ?p2)"
    by (subst diffPoly_inv_eq) (simp_all add: poly_inv_def psize_def diffTerm_def)
  have d3: "diffPoly ?p2 = (SUCCESS, ?p3)"
    by (subst diffPoly_inv_eq) (simp_all add: poly_inv_def psize_def diffTerm_def)
  have d4: "diffPoly ?p3 = (FAILURE, ?p3)"
    by (simp add: diffPoly_def psize_def)
  have l3: "nthDerivLoop 3 3 ?p3 False = (?p3, False)"
    by (subst nthDerivLoop.simps) simp
  have l2: "nthDerivLoop 2 3 ?p2 False = (?p3, False)"
    by (subst nthDerivLoop.simps) (simp add: d3 l3)
  have l1: "nthDerivLoop 1 3 ?p1 False = (?p3, False)"
    by (subst nthDerivLoop.simps) (simp add: d2 l2)
  have l0: "nthDerivLoop 0 3 ?p0 False = (?p3, False)"
    by (subst nthDerivLoop.simps) (simp add: d1 l1)
  have m4: "nthDerivLoop 4 4 ?p3 True = (?p3, True)"
    by (subst nthDerivLoop.simps) simp
  have m3: "nthDerivLoop 3 4 ?p3 False = (?p3, True)"
    by (subst nthDerivLoop.simps) (simp add: d4 m4)
  have m2: "nthDerivLoop 2 4 ?p2 False = (?p3, True)"
    by (subst nthDerivLoop.simps) (simp add: d3 m3)
  have m1: "nthDerivLoop 1 4 ?p1 False = (?p3, True)"
    by (subst nthDerivLoop.simps) (simp add: d2 m2)
  have m0: "nthDerivLoop 0 4 ?p0 False = (?p3, True)"
    by (subst nthDerivLoop.simps) (simp add: d1 m1)
  show ?thesis by (simp add: s poly_calcNthDeriv_def psize_def l0 m0)
qed

lemma integLoop_store_all:
  "j \<le> i \<Longrightarrow> i \<le> length ts \<Longrightarrow> pE \<or> (\<forall>t\<in>set (drop i ts). exp_t t \<noteq> -1) \<Longrightarrow>
   \<exists>r. integLoop ts i j pE pC = (r, pE, pC) \<and> length r = length ts \<and>
       take (j + (length ts - i)) r = take j ts @ map (\<lambda>t. fst (integrateTerm t)) (drop i ts)"
proof (induction "length ts - i" arbitrary: ts i j)
  case 0
  then have "i = length ts" by simp
  then show ?case by (subst integLoop.simps) simp
next
  case (Suc n)
  then have lt: "i < length ts" by simp
  define it where "it = fst (integrateTerm (ts ! i))"
  have dr: "drop i ts = ts ! i # drop (Suc i) ts"
    using lt by (simp add: Cons_nth_drop_Suc)
  have nc: "\<not> (fst (snd (integrateTerm (ts ! i))) \<and> \<not> pE)"
    using Suc.prems(3) dr by (auto simp: integrateTerm_def)
  let ?ts = "ts[j := it]"
  have eq: "integLoop ts i j pE pC = integLoop ?ts (i + 1) (j + 1) pE pC"
    using lt nc by (subst integLoop.simps) (auto simp: it_def split: prod.splits)
  have dr': "drop (i + 1) ?ts = drop (i + 1) ts"
    using Suc.prems by simp
  have tk: "take (j + 1) ?ts = take j ts @ [it]"
    using Suc.prems lt by (simp add: take_Suc_conv_app_nth)
  have "\<exists>r. integLoop ?ts (i + 1) (j + 1) pE pC = (r, pE, pC) \<and> length r = length ?ts \<and>
       take (j + 1 + (length ?ts - (i + 1))) r
         = take (j + 1) ?ts @ map (\<lambda>t. fst (integrateTerm t)) (drop (i + 1) ?ts)"
  proof (rule Suc.hyps(1))
    show "n = length ?ts - (i + 1)" using Suc.hyps(2) by simp
    show "j + 1 \<le> i + 1" using Suc.prems by simp
    show "i + 1 \<le> length ?ts" using lt by simp
    show "pE \<or> (\<forall>t\<in>set (drop (i + 1) ?ts). exp_t t \<noteq> - 1)"
      using Suc.prems(3) unfolding dr' dr by auto
  qed
  then obtain r where r: "integLoop ?ts (i + 1) (j + 1) pE pC = (r, pE, pC)" "length r = length ts"
    "take (j + 1 + (length ts - (i + 1))) r = take j ts @ [it] @ map (\<lambda>t. fst (integrateTerm t)) (drop (i + 1) ts)"
    unfolding dr' tk by auto
  have ae: "j + 1 + (length ts - (i + 1)) = j + (length ts - i)" using lt by simp
  have r3: "take (j + (length ts - i)) r
     = take j ts @ [it] @ map (\<lambda>t. fst (integrateTerm t)) (drop (i + 1) ts)"
    using r(3) unfolding ae .
  show ?case unfolding eq using r(1,2) r3 by (simp add: dr it_def)
qed

lemma integLoop_first:
  "j \<le> i \<Longrightarrow> i \<le> length ts \<Longrightarrow> distinct (map exp_t (drop i ts)) \<Longrightarrow>
   \<exists>r. integLoop ts i j False pC =
         (r, (\<exists>t\<in>set (drop i ts). exp_t t = -1),
          (case find (\<lambda>t. exp_t t = -1) (drop i ts) of None \<Rightarrow> pC | Some t \<Rightarrow> coeff t)) \<and>
       length r = length ts \<and>
       take (j + length (filter (\<lambda>t. exp_t t \<noteq> -1) (drop i ts))) r
         = take j ts @ map (\<lambda>t. fst (integrateTerm t)) (filter (\<lambda>t. exp_t t \<noteq> -1) (drop i ts))"
proof (induction "length ts - i" arbitrary: ts i j)
  case 0
  then have "i = length ts" by simp
  then show ?case by (subst integLoop.simps) simp
next
  case (Suc n)
  then have lt: "i < length ts" by simp
  have dr: "drop i ts = ts ! i # drop (Suc i) ts"
    using lt by (simp add: Cons_nth_drop_Suc)
  show ?case
  proof (cases "exp_t (ts ! i) = -1")
    case True
    have no: "\<forall>t\<in>set (drop (Suc i) ts). exp_t t \<noteq> -1"
      using Suc.prems(3) True unfolding dr by (auto simp: image_iff)
    have eq: "integLoop ts i j False pC = integLoop ts (i + 1) j True (coeff (ts ! i))"
      using lt True by (subst integLoop.simps) (simp add: integrateTerm_def)
    from integLoop_store_all[of j "i + 1" ts True "coeff (ts ! i)"] Suc.prems lt
    obtain r where r: "integLoop ts (i + 1) j True (coeff (ts ! i)) = (r, True, coeff (ts ! i))"
      "length r = length ts"
      "take (j + (length ts - (i + 1))) r = take j ts @ map (\<lambda>t. fst (integrateTerm t)) (drop (i + 1) ts)"
      by auto
    have f: "filter (\<lambda>t. exp_t t \<noteq> -1) (drop i ts) = drop (Suc i) ts"
      unfolding dr using True no by (simp add: filter_id_conv)
    show ?thesis unfolding eq f using r True by (simp add: dr)
  next
    case False
    define it where "it = fst (integrateTerm (ts ! i))"
    let ?ts = "ts[j := it]"
    have eq: "integLoop ts i j False pC = integLoop ?ts (i + 1) (j + 1) False pC"
      using lt False by (subst integLoop.simps) (simp add: integrateTerm_def it_def)
    have dr': "drop (i + 1) ?ts = drop (i + 1) ts"
      using Suc.prems by simp
    have tk: "take (j + 1) ?ts = take j ts @ [it]"
      using Suc.prems lt by (simp add: take_Suc_conv_app_nth)
    have "\<exists>r. integLoop ?ts (i + 1) (j + 1) False pC =
         (r, (\<exists>t\<in>set (drop (i + 1) ?ts). exp_t t = -1),
          (case find (\<lambda>t. exp_t t = -1) (drop (i + 1) ?ts) of None \<Rightarrow> pC | Some t \<Rightarrow> coeff t)) \<and>
       length r = length ?ts \<and>
       take (j + 1 + length (filter (\<lambda>t. exp_t t \<noteq> -1) (drop (i + 1) ?ts))) r
         = take (j + 1) ?ts @ map (\<lambda>t. fst (integrateTerm t)) (filter (\<lambda>t. exp_t t \<noteq> -1) (drop (i + 1) ?ts))"
    proof (rule Suc.hyps(1))
      show "n = length ?ts - (i + 1)" using Suc.hyps(2) by simp
      show "j + 1 \<le> i + 1" using Suc.prems by simp
      show "i + 1 \<le> length ?ts" using lt by simp
      show "distinct (map exp_t (drop (i + 1) ?ts))"
        using Suc.prems(3) unfolding dr' dr by simp
    qed
    then obtain r where r: "integLoop ?ts (i + 1) (j + 1) False pC =
         (r, (\<exists>t\<in>set (drop (i + 1) ts). exp_t t = -1),
          (case find (\<lambda>t. exp_t t = -1) (drop (i + 1) ts) of None \<Rightarrow> pC | Some t \<Rightarrow> coeff t))"
       "length r = length ts"
       "take (j + 1 + length (filter (\<lambda>t. exp_t t \<noteq> -1) (drop (i + 1) ts))) r
         = take j ts @ [it] @ map (\<lambda>t. fst (integrateTerm t)) (filter (\<lambda>t. exp_t t \<noteq> -1) (drop (i + 1) ts))"
      unfolding dr' tk by auto
    show ?thesis unfolding eq using r False by (simp add: dr it_def)
  qed
qed

lemma integrateTerm_other:
  "exp_t t \<noteq> -1 \<Longrightarrow> fst (integrateTerm t)
     = \<lparr>exp_t = exp_t t + 1, coeff = coeff t / real_of_int (sint (exp_t t + 1))\<rparr>"
  by (simp add: integrateTerm_def)

lemma integratePoly_eq:
  assumes d: "distinct (map exp_t (terms p))" and ne: "psize p \<noteq> 0"
  shows "integratePoly p =
    (SUCCESS,
     p\<lparr>terms := map (\<lambda>t. \<lparr>exp_t = exp_t t + 1, coeff = coeff t / real_of_int (sint (exp_t t + 1))\<rparr>)
                  (filter (\<lambda>t. exp_t t \<noteq> -1) (terms p))\<rparr>,
     poly_existsTermWithExp p (-1),
     (case find (\<lambda>t. exp_t t = -1) (terms p) of None \<Rightarrow> 0 | Some t \<Rightarrow> coeff t))"
proof -
  let ?ts = "terms p"
  let ?F = "filter (\<lambda>t. exp_t t \<noteq> -1) ?ts"
  let ?K = "map (\<lambda>t. \<lparr>exp_t = exp_t t + 1, coeff = coeff t / real_of_int (sint (exp_t t + 1))\<rparr>) ?F"
  have K: "map (\<lambda>t. fst (integrateTerm t)) ?F = ?K"
    by (rule map_cong) (auto simp: integrateTerm_other)
  from integLoop_first[of 0 0 ?ts 0] d obtain r where
    r: "integLoop ?ts 0 0 False 0 =
         (r, (\<exists>t\<in>set ?ts. exp_t t = -1),
          (case find (\<lambda>t. exp_t t = -1) ?ts of None \<Rightarrow> 0 | Some t \<Rightarrow> coeff t))"
       "length r = length ?ts"
       "take (length ?F) r = map (\<lambda>t. fst (integrateTerm t)) ?F"
    by auto
  have sum: "length ?F + length (filter (\<lambda>t. exp_t t = -1) ?ts) = length ?ts"
    using sum_length_filter_compl[of "\<lambda>t. exp_t t \<noteq> -1" ?ts] by simp
  have le1: "length (filter (\<lambda>t. exp_t t = -1) ?ts) \<le> 1"
    using d by (intro distinct_filter_le1)
  have "(if (\<exists>t\<in>set ?ts. exp_t t = -1) then butlast r else r) = ?K"
  proof (cases "\<exists>t\<in>set ?ts. exp_t t = -1")
    case True
    then have "filter (\<lambda>t. exp_t t = -1) ?ts \<noteq> []" by (simp add: filter_empty_conv)
    then have "length (filter (\<lambda>t. exp_t t = -1) ?ts) = 1" using le1
      by (cases "filter (\<lambda>t. exp_t t = -1) ?ts") auto
    then have "length ?F = length r - 1" using sum r(2) by simp
    then show ?thesis using r(3) True K by (simp add: butlast_conv_take)
  next
    case False
    then have "filter (\<lambda>t. exp_t t = -1) ?ts = []" by (simp add: filter_empty_conv)
    then have "length ?F = length r" using sum r(2) by simp
    then show ?thesis using r(3) False K by simp
  qed
  then show ?thesis using ne r(1)
    by (simp add: integratePoly_def poly_existsTermWithExp_def list_ex_iff)
qed

lemma integratePoly_empty: "psize p = 0 \<Longrightarrow> integratePoly p = (FAILURE, p, False, 0)"
  by (simp add: integratePoly_def)


lemma zeroInRange_iff: "zeroInRange LB UB \<longleftrightarrow> min LB UB \<le> 0 \<and> 0 \<le> max LB UB"
  by (auto simp: zeroInRange_def min_def max_def)

lemma getNumOfNegExps_loop_eq:
  "getNumOfNegExps_loop ts n = n + int (length (filter (\<lambda>t. sint (exp_t t) < 0) ts))"
  by (induction ts arbitrary: n) auto

lemma negExps_card:
  assumes "distinct (map exp_t ts)"
  shows "length (filter (\<lambda>t. sint (exp_t t) < 0) ts) = card {e \<in> exp_t ` set ts. sint e < 0}"
proof -
  let ?es = "filter (\<lambda>e. sint e < 0) (map exp_t ts)"
  have l: "length (filter (\<lambda>t. sint (exp_t t) < 0) ts) = length ?es"
    by (simp add: filter_map comp_def)
  have "distinct ?es" using assms by (rule distinct_filter)
  then have c: "card (set ?es) = length ?es" by (rule distinct_card)
  have s: "set ?es = {e \<in> exp_t ` set ts. sint e < 0}" by auto
  show ?thesis using l c s by simp
qed

lemma single_neg_one:
  fixes S :: "cint set"
  shows "(card S = 1 \<and> -1 \<in> S) \<longleftrightarrow> S = {-1}"
  by (auto simp: card_1_singleton_iff)

lemma divByZero_iff:
  assumes "distinct (map exp_t (terms p))"
  shows "defIntegralDivByZeroError p LB UB \<longleftrightarrow>
    (\<exists>t\<in>set (terms p). sint (exp_t t) < 0) \<and> min LB UB \<le> 0 \<and> 0 \<le> max LB UB
    \<and> {e \<in> exp_t ` set (terms p). sint e < 0} \<noteq> {-1}"
proof -
  let ?S = "{e \<in> exp_t ` set (terms p). sint e < 0}"
  have n: "getNumOfNegExps p = int (card ?S)"
    by (simp add: getNumOfNegExps_def getNumOfNegExps_loop_eq negExps_card[OF assms])
  have m: "poly_existsTermWithExp p (-1) \<longleftrightarrow> -1 \<in> ?S"
    by (auto simp: poly_existsTermWithExp_def list_ex_iff intro: rev_image_eqI)
  have "(getNumOfNegExps p = 1 \<and> poly_existsTermWithExp p (-1)) \<longleftrightarrow> ?S = {-1}"
    unfolding n m using single_neg_one[of ?S] by simp
  then show ?thesis
    unfolding defIntegralDivByZeroError_def zeroInRange_iff poly_existsNegExp_def list_ex_iff
    by auto
qed

lemma natLog_iff:
  "defIntegralNatLogError p LB UB \<longleftrightarrow>
     (\<exists>t\<in>set (terms p). exp_t t = -1) \<and> min LB UB \<le> 0 \<and> 0 \<le> max LB UB"
  by (simp add: defIntegralNatLogError_def zeroInRange_iff poly_existsTermWithExp_def list_ex_iff)

text \<open>
  C2: for a valid polynomial with at least one term, \<open>poly_calcDefIntegral\<close> sets the
  division-by-zero flag exactly when there is a negative exponent, 0 lies between the
  bounds, and the set of negative exponents is not just \<open>{-1}\<close>; it sets the
  natural-logarithm flag exactly when a term of exponent \<open>-1\<close> exists and 0 lies between
  the bounds. Both can be set in one call. Whenever one of them is set the call returns
  FAILURE with result 0, the exponent-(-1) flag FALSE, the captured coefficient 0, and the
  polynomial not changed.
\<close>

theorem C2_defIntegral_error_flags:
  assumes "poly_inv p" and "psize p \<noteq> 0"
  shows "(divByZeroError (poly_calcDefIntegral p LB UB) \<longleftrightarrow>
            (\<exists>t\<in>set (terms p). sint (exp_t t) < 0) \<and> min LB UB \<le> 0 \<and> 0 \<le> max LB UB
            \<and> {e \<in> exp_t ` set (terms p). sint e < 0} \<noteq> {-1})
       \<and> (natLogError (poly_calcDefIntegral p LB UB) \<longleftrightarrow>
            (\<exists>t\<in>set (terms p). exp_t t = -1) \<and> min LB UB \<le> 0 \<and> 0 \<le> max LB UB)
       \<and> (divByZeroError (poly_calcDefIntegral p LB UB) \<or> natLogError (poly_calcDefIntegral p LB UB)
            \<longrightarrow> status (poly_calcDefIntegral p LB UB) = FAILURE
              \<and> result (poly_calcDefIntegral p LB UB) = 0
              \<and> \<not> expNegOneIntegrated (poly_calcDefIntegral p LB UB)
              \<and> coeffExpNegOne (poly_calcDefIntegral p LB UB) = 0
              \<and> \<not> polyHasNoTerms (poly_calcDefIntegral p LB UB)
              \<and> poly (poly_calcDefIntegral p LB UB) = p)"
proof -
  have d: "distinct (map exp_t (terms p))" using assms(1) by (simp add: poly_inv_def)
  have D: "divByZeroError (poly_calcDefIntegral p LB UB) = defIntegralDivByZeroError p LB UB"
    using assms(2)
    by (simp add: poly_calcDefIntegral_def Let_def split: prod.splits)
  have N: "natLogError (poly_calcDefIntegral p LB UB) = defIntegralNatLogError p LB UB"
    using assms(2)
    by (simp add: poly_calcDefIntegral_def Let_def split: prod.splits)
  have F: "defIntegralDivByZeroError p LB UB \<or> defIntegralNatLogError p LB UB \<Longrightarrow>
      status (poly_calcDefIntegral p LB UB) = FAILURE
              \<and> result (poly_calcDefIntegral p LB UB) = 0
              \<and> \<not> expNegOneIntegrated (poly_calcDefIntegral p LB UB)
              \<and> coeffExpNegOne (poly_calcDefIntegral p LB UB) = 0
              \<and> \<not> polyHasNoTerms (poly_calcDefIntegral p LB UB)
              \<and> poly (poly_calcDefIntegral p LB UB) = p"
    using assms(2) by (auto simp: poly_calcDefIntegral_def Let_def)
  show ?thesis
    unfolding D N using F divByZero_iff[OF d, of LB UB] natLog_iff[of p LB UB] by blast
qed

subsection \<open>Evaluation\<close>

lemma calcXValue_loop_sum:
  "calcXValue_loop ts x r = r + (\<Sum>t\<leftarrow>ts. coeff t * x powi sint (exp_t t))"
  by (induction ts arbitrary: r) (auto simp: pow_def)

text \<open>
  C8: \<open>poly_calcXValue\<close> fails when the polynomial has no terms (checked first, the only
  case that sets \<open>*pPolyHasNoTerms\<close>) or when \<open>x = 0\<close> and a negative exponent is present;
  otherwise it succeeds with the sum of \<open>k \<cdot> x^n\<close> over the terms. A term of exponent 0
  adds \<open>k\<close> also at \<open>x = 0\<close>. The polynomial is never changed.
\<close>

theorem C8_calcXValue:
  "poly_calcXValue p x =
     (if psize p = 0 then (FAILURE, p, 0, True)
      else if x = 0 \<and> (\<exists>t\<in>set (terms p). sint (exp_t t) < 0) then (FAILURE, p, 0, False)
      else (SUCCESS, p, (\<Sum>t\<leftarrow>terms p. coeff t * x powi sint (exp_t t)), False))
   \<and> calcXValue \<lparr>terms = [\<lparr>exp_t = 0, coeff = k\<rparr>], cap = n\<rparr> 0 = k"
  by (auto simp: poly_calcXValue_def calcXValue_def calcXValue_loop_sum poly_existsNegExp_def
      list_ex_iff)

lemma sint_add_one:
  fixes e :: cint
  assumes "sint e < 2147483647"
  shows "sint (e + 1) = sint e + 1"
proof -
  have "- (2 ^ 31) \<le> sint e" using sint_ge[of e] by simp
  then have "sint e + 1 \<in> {- (2 ^ 31) ..< 2 ^ 31}" using assms by simp
  then have "signed_take_bit 31 (sint e + 1) = sint e + 1"
    by (simp add: signed_take_bit_int_eq_self)
  then show ?thesis by (simp add: sint_word_ariths)
qed

text \<open>
  C7: on a valid polynomial with at least one term, one integration step replaces every
  term \<open>(k, n)\<close> with \<open>n \<noteq> -1\<close> by \<open>(k / (n + 1), n + 1)\<close>, removes the term of exponent
  \<open>-1\<close>, and reports whether there was one together with its coefficient. On a polynomial
  without terms it returns FAILURE, changes nothing, and reports FALSE and 0. The word
  \<open>n + 1\<close> is the integer \<open>n + 1\<close> for every exponent below the largest \<^verbatim>\<open>int\<close>.
\<close>

theorem C7_integrate_step:
  assumes "poly_inv p"
  shows "(psize p = 0 \<longrightarrow> integratePoly p = (FAILURE, p, False, 0))
    \<and> (psize p \<noteq> 0 \<longrightarrow>
         integratePoly p =
          (SUCCESS,
           p\<lparr>terms := map (\<lambda>t. \<lparr>exp_t = exp_t t + 1, coeff = coeff t / real_of_int (sint (exp_t t + 1))\<rparr>)
                        (filter (\<lambda>t. exp_t t \<noteq> -1) (terms p))\<rparr>,
           (\<exists>t\<in>set (terms p). exp_t t = -1),
           (case find (\<lambda>t. exp_t t = -1) (terms p) of None \<Rightarrow> 0 | Some t \<Rightarrow> coeff t))
         \<and> (\<forall>t\<in>set (terms p). exp_t t = -1 \<longrightarrow> snd (snd (snd (integratePoly p))) = coeff t))
    \<and> poly_calcIndefIntegral p = integratePoly p
    \<and> (\<forall>t\<in>set (terms p). sint (exp_t t) < 2147483647 \<longrightarrow>
           sint (exp_t t + 1) = sint (exp_t t) + 1)"
proof (intro conjI impI)
  assume "psize p = 0"
  then show "integratePoly p = (FAILURE, p, False, 0)" by (rule integratePoly_empty)
next
  have d: "distinct (map exp_t (terms p))" using assms by (simp add: poly_inv_def)
  assume ne: "psize p \<noteq> 0"
  show eq: "integratePoly p =
          (SUCCESS,
           p\<lparr>terms := map (\<lambda>t. \<lparr>exp_t = exp_t t + 1, coeff = coeff t / real_of_int (sint (exp_t t + 1))\<rparr>)
                        (filter (\<lambda>t. exp_t t \<noteq> -1) (terms p))\<rparr>,
           (\<exists>t\<in>set (terms p). exp_t t = -1),
           (case find (\<lambda>t. exp_t t = -1) (terms p) of None \<Rightarrow> 0 | Some t \<Rightarrow> coeff t))"
    by (simp add: integratePoly_eq[OF d ne] poly_existsTermWithExp_def list_ex_iff)
  show "\<forall>t\<in>set (terms p). exp_t t = -1 \<longrightarrow> snd (snd (snd (integratePoly p))) = coeff t"
  proof (intro ballI impI)
    fix t assume t: "t \<in> set (terms p)" "exp_t t = -1"
    then obtain u where u: "find (\<lambda>t. exp_t t = -1) (terms p) = Some u"
      by (cases "find (\<lambda>t. exp_t t = -1) (terms p)") (auto simp: find_None_iff)
    then have "u \<in> set (terms p)" "exp_t u = -1"
      by (auto simp: find_Some_iff)
    then have "u = t" using d t by (metis distinct_map inj_on_def)
    then show "snd (snd (snd (integratePoly p))) = coeff t"
      by (simp add: eq u)
  qed
next
  show "poly_calcIndefIntegral p = integratePoly p"
    by (simp add: poly_calcIndefIntegral_def integratePoly_def split: prod.splits)
next
  show "\<forall>t\<in>set (terms p). sint (exp_t t) < 2147483647 \<longrightarrow>
           sint (exp_t t + 1) = sint (exp_t t) + 1"
    using sint_add_one by blast
qed

theorem C2_defIntegral_error_flags_witness:
  "poly_inv \<lparr>terms = [\<lparr>exp_t = -2, coeff = 1\<rparr>, \<lparr>exp_t = -1, coeff = 1\<rparr>], cap = 2\<rparr>
   \<and> psize \<lparr>terms = [\<lparr>exp_t = -2, coeff = 1\<rparr>, \<lparr>exp_t = -1, coeff = 1\<rparr>], cap = 2\<rparr> \<noteq> 0
   \<and> divByZeroError (poly_calcDefIntegral \<lparr>terms = [\<lparr>exp_t = -2, coeff = 1\<rparr>, \<lparr>exp_t = -1, coeff = 1\<rparr>], cap = 2\<rparr> (-3) 1)
   \<and> natLogError (poly_calcDefIntegral \<lparr>terms = [\<lparr>exp_t = -2, coeff = 1\<rparr>, \<lparr>exp_t = -1, coeff = 1\<rparr>], cap = 2\<rparr> (-3) 1)
   \<and> status (poly_calcDefIntegral \<lparr>terms = [\<lparr>exp_t = -2, coeff = 1\<rparr>, \<lparr>exp_t = -1, coeff = 1\<rparr>], cap = 2\<rparr> (-3) 1) = FAILURE
   \<and> poly (poly_calcDefIntegral \<lparr>terms = [\<lparr>exp_t = -2, coeff = 1\<rparr>, \<lparr>exp_t = -1, coeff = 1\<rparr>], cap = 2\<rparr> (-3) 1)
       = \<lparr>terms = [\<lparr>exp_t = -2, coeff = 1\<rparr>, \<lparr>exp_t = -1, coeff = 1\<rparr>], cap = 2\<rparr>"
proof -
  let ?p = "\<lparr>terms = [\<lparr>exp_t = -2, coeff = 1\<rparr>, \<lparr>exp_t = -1, coeff = 1\<rparr>], cap = (2::int)\<rparr>"
  have inv: "poly_inv ?p" by (simp add: poly_inv_def)
  have ne: "psize ?p \<noteq> 0" by (simp add: psize_def)
  have nl: "\<exists>t\<in>set (terms ?p). exp_t t = -1" by simp
  have nl': "natLogError (poly_calcDefIntegral ?p (-3) 1)"
    using C2_defIntegral_error_flags[OF inv ne, of "-3" 1] nl by simp
  have dz: "divByZeroError (poly_calcDefIntegral ?p (-3) 1)"
    by (simp add: poly_calcDefIntegral_def Let_def psize_def defIntegralDivByZeroError_def
        defIntegralNatLogError_def poly_existsNegExp_def poly_existsTermWithExp_def
        getNumOfNegExps_def zeroInRange_def)
  show ?thesis
    using C2_defIntegral_error_flags[OF inv ne, of "-3" 1] inv ne nl' dz
    by simp
qed

theorem C8_calcXValue_witness:
  "poly_calcXValue \<lparr>terms = [\<lparr>exp_t = 2, coeff = 1\<rparr>, \<lparr>exp_t = 1, coeff = 1\<rparr>, \<lparr>exp_t = 0, coeff = 1\<rparr>], cap = 3\<rparr> 2
     = (SUCCESS, \<lparr>terms = [\<lparr>exp_t = 2, coeff = 1\<rparr>, \<lparr>exp_t = 1, coeff = 1\<rparr>, \<lparr>exp_t = 0, coeff = 1\<rparr>], cap = 3\<rparr>, 7, False)
   \<and> poly_calcXValue \<lparr>terms = [\<lparr>exp_t = -1, coeff = 1\<rparr>], cap = 1\<rparr> 0
     = (FAILURE, \<lparr>terms = [\<lparr>exp_t = -1, coeff = 1\<rparr>], cap = 1\<rparr>, 0, False)
   \<and> poly_calcXValue \<lparr>terms = [], cap = 1\<rparr> 0 = (FAILURE, \<lparr>terms = [], cap = 1\<rparr>, 0, True)"
proof -
  have a: "poly_calcXValue \<lparr>terms = [\<lparr>exp_t = 2, coeff = 1\<rparr>, \<lparr>exp_t = 1, coeff = 1\<rparr>, \<lparr>exp_t = 0, coeff = 1\<rparr>], cap = 3\<rparr> 2
     = (SUCCESS, \<lparr>terms = [\<lparr>exp_t = 2, coeff = 1\<rparr>, \<lparr>exp_t = 1, coeff = 1\<rparr>, \<lparr>exp_t = 0, coeff = 1\<rparr>], cap = 3\<rparr>, 7, False)"
    using C8_calcXValue[of "\<lparr>terms = [\<lparr>exp_t = 2, coeff = 1\<rparr>, \<lparr>exp_t = 1, coeff = 1\<rparr>, \<lparr>exp_t = 0, coeff = 1\<rparr>], cap = 3\<rparr>" 2]
    by (simp add: psize_def)
  have b: "poly_calcXValue \<lparr>terms = [\<lparr>exp_t = -1, coeff = 1\<rparr>], cap = 1\<rparr> 0
     = (FAILURE, \<lparr>terms = [\<lparr>exp_t = -1, coeff = 1\<rparr>], cap = 1\<rparr>, 0, False)"
    using C8_calcXValue[of "\<lparr>terms = [\<lparr>exp_t = -1, coeff = 1\<rparr>], cap = 1\<rparr>" 0]
    by (simp add: psize_def)
  have c: "poly_calcXValue \<lparr>terms = [], cap = 1\<rparr> 0 = (FAILURE, \<lparr>terms = [], cap = 1\<rparr>, 0, True)"
    using C8_calcXValue[of "\<lparr>terms = [], cap = 1\<rparr>" 0]
    by (simp add: psize_def)
  show ?thesis using a b c by simp
qed

theorem C7_integrate_step_witness:
  "poly_inv \<lparr>terms = [\<lparr>exp_t = 2, coeff = 2\<rparr>, \<lparr>exp_t = 0, coeff = 1\<rparr>, \<lparr>exp_t = -1, coeff = -3\<rparr>], cap = 3\<rparr>
   \<and> integratePoly \<lparr>terms = [\<lparr>exp_t = 2, coeff = 2\<rparr>, \<lparr>exp_t = 0, coeff = 1\<rparr>, \<lparr>exp_t = -1, coeff = -3\<rparr>], cap = 3\<rparr>
     = (SUCCESS, \<lparr>terms = [\<lparr>exp_t = 3, coeff = 2 / 3\<rparr>, \<lparr>exp_t = 1, coeff = 1\<rparr>], cap = 3\<rparr>, True, -3)
   \<and> integratePoly \<lparr>terms = [], cap = 1\<rparr> = (FAILURE, \<lparr>terms = [], cap = 1\<rparr>, False, 0)"
proof -
  let ?p = "\<lparr>terms = [\<lparr>exp_t = 2, coeff = 2\<rparr>, \<lparr>exp_t = 0, coeff = 1\<rparr>, \<lparr>exp_t = -1, coeff = -3\<rparr>], cap = (3::int)\<rparr>"
  have inv: "poly_inv ?p" by (simp add: poly_inv_def)
  have inv0: "poly_inv \<lparr>terms = [], cap = 1\<rparr>" by (simp add: poly_inv_def)
  have a: "integratePoly ?p
     = (SUCCESS, \<lparr>terms = [\<lparr>exp_t = 3, coeff = 2 / 3\<rparr>, \<lparr>exp_t = 1, coeff = 1\<rparr>], cap = 3\<rparr>, True, -3)"
    using C7_integrate_step[OF inv] by (simp add: psize_def)
  have b: "integratePoly \<lparr>terms = [], cap = 1\<rparr> = (FAILURE, \<lparr>terms = [], cap = 1\<rparr>, False, 0)"
    using C7_integrate_step[OF inv0] by (simp add: psize_def)
  show ?thesis using inv a b by simp
qed

subsection \<open>Sorting, resetting and copying keep the invariant\<close>

lemma findMaxLoop_lt: "m < length ts \<Longrightarrow> findMaxLoop ts j m < length ts"
proof (induction "length ts - j" arbitrary: j m)
  case 0
  then show ?case by (subst findMaxLoop.simps) simp
next
  case (Suc n)
  then have "j < length ts" by simp
  moreover have "findMaxLoop ts (j + 1) (if sint (exp_t (ts ! j)) > sint (exp_t (ts ! m)) then j else m) < length ts"
    by (rule Suc.hyps(1)) (use Suc.hyps(2) Suc.prems \<open>j < length ts\<close> in auto)
  ultimately show ?case by (subst findMaxLoop.simps) simp
qed

lemma sortLoop_mset: "mset (sortLoop ts i) = mset ts"
proof (induction "length ts - i" arbitrary: ts i)
  case 0
  then show ?case by (subst sortLoop.simps) simp
next
  case (Suc n)
  show ?case
  proof (cases "i + 1 < length ts")
    case False
    then show ?thesis by (subst sortLoop.simps) simp
  next
    case True
    define m where "m = findMaxLoop ts (i + 1) i"
    have m: "m < length ts" unfolding m_def by (rule findMaxLoop_lt) (use True in simp)
    define ts' where "ts' = (if i \<noteq> m then swap ts i m else ts)"
    have l: "length ts' = length ts" by (simp add: ts'_def swap_def)
    have ms: "mset ts' = mset ts"
      using m True by (simp add: ts'_def swap_def mset_swap)
    have "mset (sortLoop ts' (i + 1)) = mset ts'"
      by (rule Suc.hyps(1)) (use Suc.hyps(2) l in simp)
    moreover have "sortLoop ts i = sortLoop ts' (i + 1)"
      using True by (subst sortLoop.simps) (simp add: Let_def m_def ts'_def)
    ultimately show ?thesis using ms by simp
  qed
qed

lemma inv_mset:
  assumes "mset (terms q) = mset (terms p)" "poly_inv p"
  shows "poly_inv q"
proof -
  have s: "set (terms q) = set (terms p)" using assms(1) by (rule mset_eq_setD)
  have "mset (map exp_t (terms q)) = mset (map exp_t (terms p))"
    using assms(1) by (metis mset_map)
  then have "distinct (map exp_t (terms q)) = distinct (map exp_t (terms p))"
    by (rule mset_eq_imp_distinct_iff)
  then show ?thesis using assms(2) s by (simp add: poly_inv_def list_all_iff)
qed

lemma inv_sort: "poly_inv p \<Longrightarrow> poly_inv (poly_sort p)"
  by (rule inv_mset[of _ p]) (simp_all add: poly_sort_def sortLoop_mset)





text \<open>
  C9: on a polynomial with at least one term and \<open>n \<le> 0\<close>, \<open>poly_calcNthDeriv\<close> returns
  SUCCESS, writes FALSE to the is-zero flag and leaves the polynomial as it was.
\<close>

theorem C9_nthDeriv_nonpositive:
  assumes "psize p \<noteq> 0" and "n \<le> 0"
  shows "poly_calcNthDeriv p n = (SUCCESS, p, False)"
  using assms by (simp add: poly_calcNthDeriv_def nthDerivLoop.simps)

theorem C9_nthDeriv_nonpositive_witness:
  "poly_calcNthDeriv \<lparr>terms = [\<lparr>exp_t = 2, coeff = 1\<rparr>], cap = 1\<rparr> (-3)
     = (SUCCESS, \<lparr>terms = [\<lparr>exp_t = 2, coeff = 1\<rparr>], cap = 1\<rparr>, False)"
  using C9_nthDeriv_nonpositive [of "\<lparr>terms = [\<lparr>exp_t = 2, coeff = 1\<rparr>], cap = 1\<rparr>" "-3"]
  by (simp add: psize_def)

section \<open>Properties of polynomial strings\<close>

lemma nextComp_shorter:
  assumes "s \<noteq> []" "nextComp s = (cmp, rest)"
  shows "length rest < length s"
proof (cases "isspace (hd s)")
  case True
  then have "length (dropWhile isspace s) < length s"
    using assms(1) by (cases s) (auto simp: le_imp_less_Suc length_dropWhile_le)
  moreover have "length rest \<le> length (dropWhile isspace s)"
    using assms(2) by (auto simp: nextComp_def Let_def length_dropWhile_le)
  ultimately show ?thesis by simp
next
  case False
  then have "rest = dropWhile (\<lambda>c. \<not> isspace c) (tl s)"
    using assms by (cases s) (auto simp: nextComp_def Let_def)
  then have "length rest \<le> length (tl s)" by (metis length_dropWhile_le)
  then show ?thesis using assms(1) by (cases s) auto
qed

lemma inv_newPolyLoop:
  "poly_inv p \<Longrightarrow> poly_inv (snd (newPolyLoop alloc p s m f))"
proof (induction "length s" arbitrary: s p m f rule: less_induct)
  case less
  show ?case
  proof (cases "s \<noteq> [] \<and> dropWhile isspace s \<noteq> []")
    case False
    then show ?thesis using less.prems by (subst newPolyLoop.simps) auto
  next
    case True
    obtain cmp rest where nc: "nextComp s = (cmp, rest)" by (cases "nextComp s")
    have sh: "length rest < length s" using nextComp_shorter[OF _ nc] True by simp
    show ?thesis
    proof (cases "isOp cmp")
      case True
      have "newPolyLoop alloc p s m f = newPolyLoop alloc p rest (cmp = ''-'') f"
        using \<open>s \<noteq> [] \<and> dropWhile isspace s \<noteq> []\<close> nc True by (subst newPolyLoop.simps) simp
      then show ?thesis using less.hyps[OF sh less.prems] by simp
    next
      case op: False
      show ?thesis
      proof (cases "getCoeffOfTerm cmp = 0")
        case True
        have "newPolyLoop alloc p s m f = newPolyLoop alloc p rest m False"
          using \<open>s \<noteq> [] \<and> dropWhile isspace s \<noteq> []\<close> nc op True by (subst newPolyLoop.simps) simp
        then show ?thesis using less.hyps[OF sh less.prems] by simp
      next
        case nz: False
        define c where "c = (if \<not> f \<and> m then getCoeffOfTerm cmp * - 1 else getCoeffOfTerm cmp)"
        obtain st p1 where a: "poly_addTerm alloc p (getExpOfTerm cmp) c = (st, p1)"
          by (cases "poly_addTerm alloc p (getExpOfTerm cmp) c")
        have i1: "poly_inv p1" using inv_addTerm[OF less.prems, of alloc "getExpOfTerm cmp" c] a by simp
        have "newPolyLoop alloc p s m f =
           (case st of FAILURE \<Rightarrow> (FAILURE, p1) | SUCCESS \<Rightarrow> newPolyLoop alloc p1 rest m False)"
          using \<open>s \<noteq> [] \<and> dropWhile isspace s \<noteq> []\<close> nc op nz a
          by (subst newPolyLoop.simps) (simp add: Let_def c_def)
        then show ?thesis using less.hyps[OF sh i1] i1 by (cases st) simp_all
      qed
    qed
  qed
qed

lemma inv_initPolyStr: "poly_initPolyStr mallocOk alloc s = (Some q, v) \<Longrightarrow> poly_inv q"
proof -
  assume a: "poly_initPolyStr mallocOk alloc s = (Some q, v)"
  let ?p0 = "\<lparr>terms = [], cap = getMaxNumOfTerms s\<rparr>"
  have "poly_inv ?p0" by (simp add: poly_inv_def)
  then have "poly_inv (snd (newPoly alloc ?p0 s))" unfolding newPoly_def by (rule inv_newPolyLoop)
  moreover have "q = snd (newPoly alloc ?p0 s)"
    using a by (auto simp: poly_initPolyStr_def split: if_splits prod.splits Status.splits)
  ultimately show ?thesis by simp
qed







text \<open>
  C6: the string \<open>x<TAB>+<TAB>1\<close> has white space that is not the space character, and
  \<open>poly_isValidPolyStr\<close> returns TRUE for it: the components are split at every
  \<open>isspace\<close> character, so a tab or a newline between components is never looked at.
\<close>

theorem C6_tab_separated_string_is_accepted:
  "poly_isValidPolyStr [CHR ''x'', CHR 0x09, CHR ''+'', CHR 0x09, CHR ''1'']"
  by code_simp

subsection \<open>Components of a string\<close>

lemma nextComp_space: "nextComp (CHR '' '' # r) = nextComp r"
  by (simp add: nextComp_def isspace_def)

lemma nextComp_word:
  assumes "w \<noteq> []" "\<forall>c\<in>set w. \<not> isspace c" "r = [] \<or> isspace (hd r)"
  shows "nextComp (w @ r) = (w, r)"
proof -
  have d: "dropWhile isspace (w @ r) = w @ r"
    using assms(1,2) by (cases w) auto
  have t: "takeWhile (\<lambda>c. \<not> isspace c) (w @ r) = w"
    using assms(2,3) by (cases r) (auto simp: takeWhile_append2 takeWhile_eq_all_conv)
  have dr: "dropWhile (\<lambda>c. \<not> isspace c) (w @ r) = r"
    using assms(2,3) by (cases r) (auto simp: dropWhile_append2)
  show ?thesis by (simp add: nextComp_def Let_def d t dr)
qed

lemma dropWhile_word:
  assumes "w \<noteq> []" "\<forall>c\<in>set w. \<not> isspace c"
  shows "dropWhile isspace (w @ r) \<noteq> []"
  using assms by (cases w) auto

subsection \<open>Decimal digits\<close>

lemma digit_chars:
  "d < 10 \<Longrightarrow> isdigit (''0123456789'' ! d) \<and> digitVal (''0123456789'' ! d) = d"
proof -
  assume "d < 10"
  then have "d = 0 \<or> d = 1 \<or> d = 2 \<or> d = 3 \<or> d = 4 \<or> d = 5 \<or> d = 6 \<or> d = 7
    \<or> d = 8 \<or> d = 9" by arith
  then show ?thesis by (elim disjE) (simp_all add: isdigit_def digitVal_def)
qed

lemma natDigits_digits: "\<forall>c\<in>set (natDigits n). isdigit c"
proof (induction n rule: natDigits.induct)
  case (1 n)
  show ?case
  proof (cases "n < 10")
    case True
    then show ?thesis by (subst natDigits.simps) (simp add: digit_chars)
  next
    case False
    then show ?thesis using 1 by (subst natDigits.simps) (simp add: digit_chars)
  qed
qed

lemma natDigits_nonempty: "natDigits n \<noteq> []"
  by (subst natDigits.simps) simp

lemma digitsVal_snoc: "digitsVal (ds @ [c]) = 10 * digitsVal ds + digitVal c"
  by (simp add: digitsVal_def)

lemma digitsVal_natDigits: "digitsVal (natDigits n) = n"
proof (induction n rule: natDigits.induct)
  case (1 n)
  show ?case
  proof (cases "n < 10")
    case True
    then show ?thesis by (subst natDigits.simps) (simp add: digit_chars digitsVal_def)
  next
    case False
    then show ?thesis using 1 by (subst natDigits.simps) (simp add: digit_chars digitsVal_snoc)
  qed
qed

lemma isdigit_not_space: "isdigit c \<Longrightarrow> \<not> isspace c"
  by (auto simp: isdigit_def isspace_def)

lemma isdigit_valid: "isdigit c \<Longrightarrow> c \<in> set validCompChars"
  by (auto simp: isdigit_def validCompChars_def)

lemma isdigit_simps:
  "\<not> isdigit (CHR ''-'')" "\<not> isdigit (CHR '' '')" "\<not> isdigit (CHR ''.'')" "\<not> isdigit (CHR 0x00)"
  "\<not> isdigit (CHR ''x'')" "\<not> isdigit (CHR ''X'')" "\<not> isdigit (CHR ''+'')" "\<not> isdigit (CHR ''^'')"
  by (simp_all add: isdigit_def)

subsection \<open>The exponent text\<close>

lemma atoi_printf_d: "atoi (printf_d e) = e"
proof (cases "sint e < 0")
  case True
  let ?ds = "natDigits (nat (- sint e))"
  have tw: "takeWhile isdigit ?ds = ?ds" using natDigits_digits by (simp add: takeWhile_eq_all_conv)
  have "atoi (CHR ''-'' # ?ds) = word_of_int (- int (digitsVal ?ds))"
    by (simp add: atoi_def Let_def isspace_def tw)
  also have "\<dots> = word_of_int (sint e)" using True by (simp add: digitsVal_natDigits)
  finally show ?thesis using True by (simp add: printf_d_def)
next
  case False
  let ?ds = "natDigits (nat (sint e))"
  have tw: "takeWhile isdigit ?ds = ?ds" using natDigits_digits by (simp add: takeWhile_eq_all_conv)
  obtain c cs where cs: "?ds = c # cs" using natDigits_nonempty[of "nat (sint e)"] by (cases ?ds) auto
  have c: "isdigit c" using natDigits_digits[of "nat (sint e)"] cs by simp
  then have ns: "\<not> isspace c" "c \<noteq> CHR ''-''" "c \<noteq> CHR ''+''"
    using isdigit_simps by (auto simp: isdigit_not_space)
  have "dropWhile isspace ?ds = ?ds" using cs ns by simp
  then have "atoi ?ds = word_of_int (int (digitsVal ?ds))"
    using cs ns tw by (simp add: atoi_def Let_def)
  also have "\<dots> = word_of_int (sint e)" using False by (simp add: digitsVal_natDigits)
  finally show ?thesis using False by (simp add: printf_d_def)
qed

lemma cnth_0: "s \<noteq> [] \<Longrightarrow> cnth s 0 = hd s"
  by (cases s) (simp_all add: cnth_def)

lemma cnth_nth: "k < length s \<Longrightarrow> cnth s k = s ! k"
  by (simp add: cnth_def)

lemma cnth_end: "cnth s (length s) = CHR 0x00"
  by (simp add: cnth_def)

lemma leadingSpaces_none: "s = [] \<or> \<not> isspace (hd s) \<Longrightarrow> leadingSpaces s 0 = Some 0"
  by (subst leadingSpaces.simps) (auto simp: cnth_0)

lemma countNums_one:
  assumes "s \<noteq> []" "CHR '' '' \<notin> set s"
  shows "countNums s 0 = 1"
proof -
  have d: "dropWhile (\<lambda>c. c = CHR '' '') s = s"
    using assms by (cases s) auto
  have t: "takeWhile (\<lambda>c. c \<noteq> CHR '' '') s = s"
    using assms(2) by (simp add: takeWhile_eq_all_conv) metis
  have r: "dropWhile (\<lambda>c. c \<noteq> CHR '' '') s = []"
    using assms(2) by (simp add: dropWhile_eq_Nil_conv) metis
  have e: "countNums [] 1 = 1" by (subst countNums.simps) simp
  show ?thesis using assms(1) by (subst countNums.simps) (simp add: Let_def d t r e)
qed

lemma validIntsLoop_digits:
  "\<forall>k. i \<le> k \<and> k < length s \<longrightarrow> isdigit (s ! k) \<Longrightarrow> validIntsLoop s i ng"
proof (induction "length s - i" arbitrary: i ng)
  case 0
  then show ?case by (subst validIntsLoop.simps) simp
next
  case (Suc n i ng)
  then have lt: "i < length s" by simp
  then have d: "isdigit (cnth s i)" using Suc.prems by (simp add: cnth_nth)
  then have ne: "cnth s i \<noteq> CHR '' ''" "cnth s i \<noteq> CHR ''-''"
    using isdigit_simps by auto
  have "validIntsLoop s (i + 1) ng"
    by (rule Suc.hyps(1)) (use Suc.hyps(2) Suc.prems in auto)
  then show ?case using lt d ne by (subst validIntsLoop.simps) (simp add: Let_def)
qed

lemma validInts_printf_d: "inputsAreValidInts (printf_d e) 1"
proof (cases "sint e < 0")
  case False
  let ?ds = "natDigits (nat (sint e))"
  have ne: "?ds \<noteq> []" by (rule natDigits_nonempty)
  have dg: "\<forall>c\<in>set ?ds. isdigit c" by (rule natDigits_digits)
  have hd: "isdigit (hd ?ds)" using ne dg by (cases ?ds) auto
  have ls: "leadingSpaces ?ds 0 = Some 0"
    by (rule leadingSpaces_none) (use hd isdigit_not_space in auto)
  have c0: "cnth ?ds 0 \<noteq> CHR 0x00" using hd ne isdigit_simps by (auto simp: cnth_0)
  have vl: "validIntsLoop ?ds 0 False"
    by (rule validIntsLoop_digits) (use dg in auto)
  have sp: "CHR '' '' \<notin> set ?ds" using dg isdigit_simps by auto
  show ?thesis
    using False by (simp add: printf_d_def inputsAreValidInts_def ls c0 vl countNums_one[OF ne sp])
next
  case True
  let ?ds = "natDigits (nat (- sint e))"
  let ?D = "CHR ''-'' # ?ds"
  have ne: "?ds \<noteq> []" by (rule natDigits_nonempty)
  have dg: "\<forall>c\<in>set ?ds. isdigit c" by (rule natDigits_digits)
  have hd: "isdigit (hd ?ds)" using ne dg by (cases ?ds) auto
  have ls: "leadingSpaces ?D 0 = Some 0"
    by (rule leadingSpaces_none) (simp add: isspace_def)
  have c0: "cnth ?D 0 \<noteq> CHR 0x00" by (simp add: cnth_def)
  have c1: "isdigit (cnth ?D 1)" using hd ne by (cases ?ds) (auto simp: cnth_def)
  have v1: "validIntsLoop ?D 1 True"
  proof (rule validIntsLoop_digits, intro allI impI)
    fix k assume "1 \<le> k \<and> k < length ?D"
    then show "isdigit (?D ! k)" using dg by (cases k) auto
  qed
  have vl: "validIntsLoop ?D 0 False"
    using c1 v1 by (subst validIntsLoop.simps) (simp add: Let_def cnth_def isdigit_simps)
  have sp: "CHR '' '' \<notin> set ?D" using dg isdigit_simps by auto
  have "countNums ?D 0 = 1" by (rule countNums_one) (use sp in auto)
  then show ?thesis
    using True by (simp add: printf_d_def inputsAreValidInts_def ls c0 vl)
qed

lemma printf_d_chars: "\<forall>c\<in>set (printf_d e). isdigit c \<or> c = CHR ''-''"
  using natDigits_digits by (auto simp: printf_d_def)

subsection \<open>What validation says about a coefficient text\<close>

lemma validDoublesLoop_step:
  assumes "validDoublesLoop s i n d" "i < length s"
  shows "(isdigit (s ! i) \<or> s ! i = CHR '' '' \<or> s ! i = CHR ''-'' \<or> s ! i = CHR ''.'')
    \<and> (\<exists>n' d'. validDoublesLoop s (i + 1) n' d')"
proof -
  let ?c = "s ! i"
  have c: "cnth s i = ?c" using assms(2) by (simp add: cnth_def)
  consider (sp) "?c = CHR '' ''" | (mi) "?c = CHR ''-''" | (pt) "?c = CHR ''.''"
    | (dg) "isdigit ?c" "?c \<noteq> CHR '' ''" "?c \<noteq> CHR ''-''" "?c \<noteq> CHR ''.''"
    | (bad) "\<not> isdigit ?c" "?c \<noteq> CHR '' ''" "?c \<noteq> CHR ''-''" "?c \<noteq> CHR ''.''"
    by blast
  then show ?thesis
  proof cases
    case sp
    have "validDoublesLoop s (i + 1) False False"
      using assms sp c by (subst (asm) validDoublesLoop.simps) (simp add: Let_def isdigit_simps)
    then show ?thesis using sp by blast
  next
    case mi
    have "validDoublesLoop s (i + 1) True d"
      using assms mi c
      by (subst (asm) validDoublesLoop.simps) (simp add: Let_def isdigit_simps split: if_splits)
    then show ?thesis using mi by blast
  next
    case pt
    have "validDoublesLoop s (i + 1) n True"
      using assms pt c
      by (subst (asm) validDoublesLoop.simps) (simp add: Let_def isdigit_simps split: if_splits)
    then show ?thesis using pt by blast
  next
    case dg
    have "validDoublesLoop s (i + 1) n d"
      using assms dg c by (subst (asm) validDoublesLoop.simps) (simp add: Let_def)
    then show ?thesis using dg by blast
  next
    case bad
    have False
      using assms bad c by (subst (asm) validDoublesLoop.simps) (simp add: Let_def)
    then show ?thesis ..
  qed
qed

lemma validDoublesLoop_chars:
  "validDoublesLoop s i n d \<Longrightarrow> i \<le> k \<Longrightarrow> k < length s \<Longrightarrow>
   isdigit (s ! k) \<or> s ! k = CHR '' '' \<or> s ! k = CHR ''-'' \<or> s ! k = CHR ''.''"
proof (induction "k - i" arbitrary: i n d)
  case 0
  then have "i = k" by simp
  then show ?case using validDoublesLoop_step[OF "0.prems"(1)] "0.prems"(3) by simp
next
  case (Suc m i n d)
  have lt: "i < length s" using Suc.hyps(2) Suc.prems(3) by linarith
  from validDoublesLoop_step[OF Suc.prems(1) lt] obtain n' d' where
    v: "validDoublesLoop s (i + 1) n' d'" by blast
  have h: "m = k - (i + 1)" using Suc.hyps(2) by simp
  have le: "i + 1 \<le> k" using Suc.hyps(2) by simp
  show ?case by (rule Suc.hyps(1)[OF h v le Suc.prems(3)])
qed

lemma validCompChars_no_space: "\<forall>c\<in>set validCompChars. \<not> isspace c"
  by (simp add: validCompChars_def isspace_def)

lemma valid_chars_no_space: "allCompCharsAreValid s \<Longrightarrow> c \<in> set s \<Longrightarrow> \<not> isspace c"
  using validCompChars_no_space by (auto simp: allCompCharsAreValid_def list_all_iff)

lemma coeffText_props:
  assumes v: "allCompCharsAreValid G" and d: "inputsAreValidDoubles G 1"
  shows "G \<noteq> []" and "\<forall>c\<in>set G. isdigit c \<or> c = CHR ''-'' \<or> c = CHR ''.''"
    and "G \<noteq> ''-''" and "length G = 1 \<longrightarrow> isdigit (hd G)"
proof -
  have ns: "\<forall>c\<in>set G. \<not> isspace c" using v valid_chars_no_space by blast
  have ls: "leadingSpaces G 0 = Some 0"
    by (rule leadingSpaces_none) (use ns in \<open>cases G; auto\<close>)
  from d have c0: "cnth G 0 \<noteq> CHR 0x00" and vl: "validDoublesLoop G 0 False False"
    by (auto simp: inputsAreValidDoubles_def ls split: if_splits)
  show ne: "G \<noteq> []" using c0 by (auto simp: cnth_def)
  show ch: "\<forall>c\<in>set G. isdigit c \<or> c = CHR ''-'' \<or> c = CHR ''.''"
  proof
    fix c assume "c \<in> set G"
    then obtain k where k: "k < length G" "G ! k = c" by (auto simp: in_set_conv_nth)
    from validDoublesLoop_chars[OF vl _ k(1)] k(2)
    have "isdigit c \<or> c = CHR '' '' \<or> c = CHR ''-'' \<or> c = CHR ''.''" by simp
    moreover have "c \<noteq> CHR '' ''" using ns \<open>c \<in> set G\<close> by (auto simp: isspace_def)
    ultimately show "isdigit c \<or> c = CHR ''-'' \<or> c = CHR ''.''" by simp
  qed
  have m: "\<not> validDoublesLoop ''-'' 0 False False"
    by (subst validDoublesLoop.simps) (simp add: cnth_def isdigit_simps)
  have p: "\<not> validDoublesLoop ''.'' 0 False False"
    by (subst validDoublesLoop.simps) (simp add: cnth_def isdigit_simps)
  show "G \<noteq> ''-''" using vl m by auto
  show "length G = 1 \<longrightarrow> isdigit (hd G)"
  proof
    assume "length G = 1"
    then obtain c where G: "G = [c]" by (cases G) auto
    then have "isdigit c \<or> c = CHR ''-'' \<or> c = CHR ''.''" using ch by simp
    then show "isdigit (hd G)" using vl m p G by auto
  qed
qed

lemma printTerm_termText:
  "printTerm f t = termText (if f then coeff t else \<bar>coeff t\<bar>) (exp_t t)"
  by (auto simp: printTerm_def termText_def)

lemma isXChar_simps:
  "isXChar (CHR ''x'')" "\<not> isXChar (CHR ''-'')" "\<not> isXChar (CHR ''.'')" "\<not> isXChar (CHR ''^'')"
  "\<not> isXChar (CHR 0x00)" "isdigit c \<Longrightarrow> \<not> isXChar c"
  by (auto simp: isXChar_def isdigit_def)

lemma isspace_simps:
  "\<not> isspace (CHR ''x'')" "\<not> isspace (CHR ''-'')" "\<not> isspace (CHR ''+'')" "\<not> isspace (CHR ''^'')"
  "isspace (CHR '' '')" "\<not> isspace (CHR ''.'')"
  by (simp_all add: isspace_def)

lemma valid_simps:
  "CHR ''x'' \<in> set validCompChars" "CHR ''-'' \<in> set validCompChars"
  "CHR ''^'' \<in> set validCompChars" "CHR ''+'' \<in> set validCompChars"
  by (simp_all add: validCompChars_def)

text \<open>The constant term: the coefficient text alone.\<close>

lemma constText:
  assumes v: "v \<noteq> 0" and p: "printsExactly v"
  shows "printf_g v \<noteq> []" "\<forall>c\<in>set (printf_g v). \<not> isspace c \<and> \<not> isXChar c"
    "\<not> isOp (printf_g v)" "isValidComp (printf_g v)"
    "getCoeffOfTerm (printf_g v) = v" "getExpOfTerm (printf_g v) = 0"
proof -
  let ?G = "printf_g v"
  have va: "allCompCharsAreValid ?G" and vd: "inputsAreValidDoubles ?G 1" and st: "strtod ?G = v"
    using p by (simp_all add: printsExactly_def)
  note cp = coeffText_props[OF va vd]
  show ne: "?G \<noteq> []" by (rule cp(1))
  show ch: "\<forall>c\<in>set ?G. \<not> isspace c \<and> \<not> isXChar c"
    using cp(2) isdigit_not_space isspace_simps isXChar_simps by blast
  have tw: "takeWhile (\<lambda>c. \<not> isXChar c) ?G = ?G"
    using ch by (simp add: takeWhile_eq_all_conv)
  have plus: "?G \<noteq> ''+''"
  proof
    assume "?G = ''+''"
    then have "CHR ''+'' \<in> set ?G" by simp
    then show False using cp(2) isdigit_simps by auto
  qed
  show "\<not> isOp ?G" using cp(3) plus by (simp add: isOp_def)
  show "isValidComp ?G"
  proof (cases "length ?G = 1")
    case True
    then have "isdigit (cnth ?G 0)" using cp(4) ne by (simp add: cnth_0)
    then show ?thesis using va True by (simp add: isValidComp_def)
  next
    case False
    then show ?thesis
      using va vd ne by (simp add: isValidComp_def Let_def tw cnth_end)
  qed
  show "getCoeffOfTerm ?G = v"
    using ne cp(3) st v by (simp add: getCoeffOfTerm_def Let_def tw)
  show "getExpOfTerm ?G = 0"
    by (simp add: getExpOfTerm_def Let_def tw cnth_end)
qed

text \<open>A term with \<open>x\<close>: coefficient part, \<open>x\<close>, exponent part.\<close>

lemma xText:
  assumes C: "\<forall>c\<in>set C. \<not> isXChar c"
  shows "takeWhile (\<lambda>c. \<not> isXChar c) (C @ CHR ''x'' # E) = C"
    "cnth (C @ CHR ''x'' # E) (length C) = CHR ''x''"
    "cnth (C @ CHR ''x'' # E) (length C + 1) = (if E = [] then CHR 0x00 else hd E)"
    "drop (length C + 2) (C @ CHR ''x'' # E) = tl E"
proof -
  show "takeWhile (\<lambda>c. \<not> isXChar c) (C @ CHR ''x'' # E) = C"
    using C by (simp add: takeWhile_append2 isXChar_simps)
  show "cnth (C @ CHR ''x'' # E) (length C) = CHR ''x''"
    by (simp add: cnth_def)
  show "cnth (C @ CHR ''x'' # E) (length C + 1) = (if E = [] then CHR 0x00 else hd E)"
    by (cases E) (simp_all add: cnth_def nth_append)
  show "drop (length C + 2) (C @ CHR ''x'' # E) = tl E"
    by (cases E) simp_all
qed

lemma isValidComp_xText:
  assumes Cx: "\<forall>c\<in>set C. \<not> isXChar c" and Cv: "allCompCharsAreValid C"
    and Cd: "C = [] \<or> C = ''-'' \<or> inputsAreValidDoubles C 1"
    and E: "E = [] \<or> E = CHR ''^'' # printf_d e"
  shows "isValidComp (C @ CHR ''x'' # E)"
proof -
  let ?T = "C @ CHR ''x'' # E"
  have pc: "\<forall>c\<in>set (printf_d e). c \<in> set validCompChars"
    using printf_d_chars[of e] isdigit_valid valid_simps(2) by blast
  have Ev: "allCompCharsAreValid E"
    using E pc by (auto simp: allCompCharsAreValid_def list_all_iff valid_simps)
  have av: "allCompCharsAreValid ?T"
    using Cv Ev by (simp add: allCompCharsAreValid_def valid_simps)
  show ?thesis
  proof (cases "length ?T = 1")
    case True
    then have "?T = ''x''" by (cases C; cases E) auto
    then show ?thesis using av by (simp add: isValidComp_def)
  next
    case l: False
    have nv: "(C \<noteq> [] \<and> C \<noteq> ''-'' \<and> \<not> inputsAreValidDoubles C 1) = False"
      using Cd by blast
    have u: "isValidComp ?T =
        (if C \<noteq> [] \<and> C \<noteq> ''-'' \<and> \<not> inputsAreValidDoubles C 1 then False
         else if C \<noteq> [] \<and> cnth ?T (length C) = CHR 0x00 then True
         else if cnth ?T (length C + 1) = CHR 0x00 then True
         else if cnth ?T (length C + 1) \<noteq> CHR ''^'' then False
         else inputsAreValidInts (drop (length C + 2) ?T) 1)"
      by (subst isValidComp_def)
         (simp only: av l Let_def xText(1)[OF Cx] not_True_eq_False if_False)
    show ?thesis
    proof (cases "E = []")
      case True
      show ?thesis unfolding u nv xText(2,3)[OF Cx] using True by simp
    next
      case False
      then have EE: "E = CHR ''^'' # printf_d e" using E by simp
      have hd: "hd E = CHR ''^''" and tl: "tl E = printf_d e" by (simp_all add: EE)
      show ?thesis
        unfolding u nv xText(2,3,4)[OF Cx] using False hd tl validInts_printf_d[of e] by simp
    qed
  qed
qed

lemma termText_props:
  assumes v: "v \<noteq> 0" and p: "printsExactly v"
  shows "termText v e \<noteq> []" "\<forall>c\<in>set (termText v e). \<not> isspace c"
    "\<not> isOp (termText v e)" "isValidComp (termText v e)"
    "getCoeffOfTerm (termText v e) = v" "getExpOfTerm (termText v e) = e"
proof -
  note ct = constText[OF v p]
  have va: "allCompCharsAreValid (printf_g v)" and vd: "inputsAreValidDoubles (printf_g v) 1"
    and st: "strtod (printf_g v) = v"
    using p by (simp_all add: printsExactly_def)
  define C where "C = (if v = - 1 then ''-'' else if v \<noteq> 1 then printf_g v else [])"
  define E where "E = (if e \<noteq> 1 then CHR ''^'' # printf_d e else [])"
  have tt: "e \<noteq> 0 \<Longrightarrow> termText v e = C @ CHR ''x'' # E"
    by (simp add: termText_def C_def E_def)
  have Ccases: "(v = 1 \<and> C = []) \<or> (v = - 1 \<and> C = ''-'')
      \<or> (v \<noteq> 1 \<and> v \<noteq> - 1 \<and> C = printf_g v)"
    by (simp add: C_def)
  have Cx: "\<forall>c\<in>set C. \<not> isXChar c"
    using Ccases ct(2) isXChar_simps(2) by auto
  have Cs: "\<forall>c\<in>set C. \<not> isspace c"
    using Ccases ct(2) isspace_simps(2) by auto
  have pc: "\<forall>c\<in>set (printf_d e). \<not> isspace c"
    using printf_d_chars[of e] isdigit_not_space isspace_simps(2) by blast
  have Es: "\<forall>c\<in>set E. \<not> isspace c"
    using pc by (auto simp: E_def isspace_simps)
  have Cv: "allCompCharsAreValid C"
    using Ccases va by (auto simp: allCompCharsAreValid_def valid_simps)
  have Cd: "C = [] \<or> C = ''-'' \<or> inputsAreValidDoubles C 1"
    using Ccases vd by auto
  have EE: "E = [] \<or> E = CHR ''^'' # printf_d e" by (simp add: E_def)
  have tw: "takeWhile (\<lambda>c. \<not> isXChar c) (C @ CHR ''x'' # E) = C" by (rule xText(1)[OF Cx])
  have gne: "printf_g v \<noteq> ''-''" using ct(3) by (simp add: isOp_def)
  have Cc: "getCoeffOfTerm (C @ CHR ''x'' # E) = v"
    using Ccases
  proof (elim disjE conjE)
    assume "v = 1" "C = []"
    then show ?thesis unfolding getCoeffOfTerm_def Let_def tw by simp
  next
    assume "v = - 1" "C = ''-''"
    then show ?thesis unfolding getCoeffOfTerm_def Let_def tw by simp
  next
    assume "v \<noteq> 1" "v \<noteq> - 1" "C = printf_g v"
    then show ?thesis unfolding getCoeffOfTerm_def Let_def tw using ct(1) gne st v by simp
  qed
  show "termText v e \<noteq> []" using ct(1) tt by (cases "e = 0") (simp_all add: termText_def)
  show "\<forall>c\<in>set (termText v e). \<not> isspace c"
  proof (cases "e = 0")
    case True then show ?thesis using ct(2) by (simp add: termText_def)
  next
    case False then show ?thesis using Cs Es by (simp add: tt isspace_simps ball_Un)
  qed
  show "\<not> isOp (termText v e)"
  proof (cases "e = 0")
    case True then show ?thesis using ct(3) by (simp add: termText_def)
  next
    case False
    have "CHR ''x'' \<in> set (termText v e)" using False by (simp add: tt)
    then show ?thesis by (auto simp: isOp_def)
  qed
  show "isValidComp (termText v e)"
  proof (cases "e = 0")
    case True then show ?thesis using ct(4) by (simp add: termText_def)
  next
    case False
    show ?thesis unfolding tt[OF False] by (rule isValidComp_xText[OF Cx Cv Cd EE])
  qed
  show "getCoeffOfTerm (termText v e) = v"
    using ct(5) Cc tt by (cases "e = 0") (simp_all add: termText_def)
  show "getExpOfTerm (termText v e) = e"
  proof (cases "e = 0")
    case True then show ?thesis using ct(6) by (simp add: termText_def)
  next
    case False
    show ?thesis
    proof (cases "e = 1")
      case True
      then have "E = []" by (simp add: E_def)
      then show ?thesis
        unfolding tt[OF False] getExpOfTerm_def Let_def tw xText(2,3)[OF Cx]
        using True by (simp add: isXChar_simps)
    next
      case e1: False
      then have "E = CHR ''^'' # printf_d e" by (simp add: E_def)
      then show ?thesis
        unfolding tt[OF False] getExpOfTerm_def Let_def tw xText(2,3,4)[OF Cx]
        by (simp add: isXChar_simps atoi_printf_d)
    qed
  qed
qed

lemma printLoop_restText: "printLoop f (t # ts) = printTerm f t @ restText ts"
  by (induction ts arbitrary: f t) auto

lemma restText_head: "restText ts = [] \<or> isspace (hd (restText ts))"
  by (cases ts) (auto simp: isspace_def)

lemma restText_Cons:
  "restText (u # us) = CHR '' '' # opText u @ CHR '' '' # printTerm False u @ restText us"
  by (simp add: opText_def)

lemma opText_props:
  "opText u \<noteq> []" "\<forall>c\<in>set (opText u). \<not> isspace c" "isOp (opText u)" "isValidComp (opText u)"
  "(opText u = ''-'') = (coeff u < 0)"
  by (simp_all add: opText_def isOp_def isspace_def isValidComp_def allCompCharsAreValid_def
      validCompChars_def)

lemma nextComp_op:
  "nextComp (CHR '' '' # opText u @ CHR '' '' # r) = (opText u, CHR '' '' # r)"
  unfolding nextComp_space
  by (rule nextComp_word) (simp_all add: opText_props isspace_simps)

lemma nextComp_tok:
  assumes "w \<noteq> []" "\<forall>c\<in>set w. \<not> isspace c"
  shows "nextComp (CHR '' '' # w @ restText us) = (w, restText us)"
  unfolding nextComp_space
  by (rule nextComp_word) (use assms restText_head in auto)

lemma restTok:
  assumes "coeff u \<noteq> 0" "printsExactly \<bar>coeff u\<bar>"
  shows "printTerm False u \<noteq> []" "\<forall>c\<in>set (printTerm False u). \<not> isspace c"
    "\<not> isOp (printTerm False u)" "isValidComp (printTerm False u)"
    "getCoeffOfTerm (printTerm False u) = \<bar>coeff u\<bar>" "getExpOfTerm (printTerm False u) = exp_t u"
  using termText_props[of "\<bar>coeff u\<bar>" "exp_t u"] assms
  by (simp_all add: printTerm_termText)

lemma firstTok:
  assumes "coeff u \<noteq> 0" "printsExactly (coeff u)"
  shows "printTerm True u \<noteq> []" "\<forall>c\<in>set (printTerm True u). \<not> isspace c"
    "\<not> isOp (printTerm True u)" "isValidComp (printTerm True u)"
    "getCoeffOfTerm (printTerm True u) = coeff u" "getExpOfTerm (printTerm True u) = exp_t u"
  using termText_props[of "coeff u" "exp_t u"] assms
  by (simp_all add: printTerm_termText)

subsection \<open>Validation of the printed text\<close>

lemma isValidLoop_restText:
  assumes "\<forall>t\<in>set ts. coeff t \<noteq> 0 \<and> printsExactly \<bar>coeff t\<bar>"
  shows "isValidLoop (restText ts) False False"
  using assms
proof (induction ts)
  case Nil
  show ?case by (subst isValidLoop.simps) simp
next
  case (Cons u us)
  then have u: "coeff u \<noteq> 0" "printsExactly \<bar>coeff u\<bar>" by simp_all
  note tk = restTok[OF u]
  let ?w = "printTerm False u"
  have ih: "isValidLoop (restText us) False False" using Cons by simp
  have 2: "isValidLoop (CHR '' '' # ?w @ restText us) True False"
    by (subst isValidLoop.simps) (simp add: nextComp_tok[OF tk(1,2)] tk ih)
  show ?case
    unfolding restText_Cons
    by (subst isValidLoop.simps) (simp add: nextComp_op opText_props 2)
qed

lemma isValid_printLoop:
  assumes t: "coeff t \<noteq> 0" "printsExactly (coeff t)"
    and ts: "\<forall>t\<in>set ts. coeff t \<noteq> 0 \<and> printsExactly \<bar>coeff t\<bar>"
  shows "poly_isValidPolyStr (printLoop True (t # ts))"
proof -
  note tk = firstTok[OF t]
  let ?w = "printTerm True t"
  have nc: "nextComp (?w @ restText ts) = (?w, restText ts)"
    by (rule nextComp_word) (use tk restText_head in auto)
  have "isValidLoop (?w @ restText ts) False True"
    using tk(1) by (subst isValidLoop.simps) (simp add: nc tk isValidLoop_restText[OF ts])
  then show ?thesis using tk(1) by (simp add: poly_isValidPolyStr_def printLoop_restText)
qed

subsection \<open>The number of terms counted in the printed text\<close>

lemma maxNum_restText:
  assumes "\<forall>t\<in>set ts. coeff t \<noteq> 0 \<and> printsExactly \<bar>coeff t\<bar>"
  shows "getMaxNumOfTerms_loop (restText ts) n = n + int (length ts)"
  using assms
proof (induction ts arbitrary: n)
  case Nil
  show ?case by (subst getMaxNumOfTerms_loop.simps) simp
next
  case (Cons u us)
  then have u: "coeff u \<noteq> 0" "printsExactly \<bar>coeff u\<bar>" by simp_all
  note tk = restTok[OF u]
  let ?w = "printTerm False u"
  have nop: "?w \<noteq> ''-''" "?w \<noteq> ''+''" using tk(3) by (auto simp: isOp_def)
  have ih: "getMaxNumOfTerms_loop (restText us) (n + 1) = n + 1 + int (length us)"
    using Cons by simp
  have 2: "getMaxNumOfTerms_loop (CHR '' '' # ?w @ restText us) n = n + 1 + int (length us)"
    by (subst getMaxNumOfTerms_loop.simps) (simp add: nextComp_tok[OF tk(1,2)] tk nop ih)
  have op: "opText u = ''-'' \<or> opText u = ''+''" by (simp add: opText_def)
  show ?case
    unfolding restText_Cons
    using op by (subst getMaxNumOfTerms_loop.simps) (auto simp: nextComp_op 2)
qed

lemma maxNum_printLoop:
  assumes t: "coeff t \<noteq> 0" "printsExactly (coeff t)"
    and ts: "\<forall>t\<in>set ts. coeff t \<noteq> 0 \<and> printsExactly \<bar>coeff t\<bar>"
  shows "getMaxNumOfTerms (printLoop True (t # ts)) = 1 + int (length ts)"
proof -
  note tk = firstTok[OF t]
  let ?w = "printTerm True t"
  have nop: "?w \<noteq> ''-''" "?w \<noteq> ''+''" using tk(3) by (auto simp: isOp_def)
  have nc: "nextComp (?w @ restText ts) = (?w, restText ts)"
    by (rule nextComp_word) (use tk restText_head in auto)
  show ?thesis
    unfolding getMaxNumOfTerms_def printLoop_restText
    using tk(1) by (subst getMaxNumOfTerms_loop.simps) (simp add: nc nop maxNum_restText[OF ts])
qed

subsection \<open>Construction from the printed text\<close>

lemma addTerm_fresh:
  assumes "exp_t u \<notin> exp_t ` set (terms p)" "coeff u \<noteq> 0" "int (length (terms p)) < cap p"
  shows "poly_addTerm alloc p (exp_t u) (coeff u) = (SUCCESS, p\<lparr>terms := terms p @ [u]\<rparr>)"
proof -
  have "exp_t t \<noteq> exp_t u" if "t \<in> set (terms p)" for t
    using assms(1) that by (metis imageI)
  then have ne: "\<not> poly_existsTermWithExp p (exp_t u)"
    by (auto simp: poly_existsTermWithExp_def list_ex_iff)
  show ?thesis
    using assms(3) by (simp add: addTerm_absent[OF ne assms(2)] psize_def)
qed

lemma newPolyLoop_restText:
  assumes "\<forall>t\<in>set ts. coeff t \<noteq> 0 \<and> printsExactly \<bar>coeff t\<bar>"
    and "distinct (map exp_t (terms p @ ts))"
    and "int (length (terms p) + length ts) \<le> cap p"
  shows "newPolyLoop alloc p (restText ts) m False = (SUCCESS, p\<lparr>terms := terms p @ ts\<rparr>)"
  using assms
proof (induction ts arbitrary: p m)
  case Nil
  show ?case by (subst newPolyLoop.simps) simp
next
  case (Cons u us)
  then have u: "coeff u \<noteq> 0" "printsExactly \<bar>coeff u\<bar>" by simp_all
  note tk = restTok[OF u]
  let ?w = "printTerm False u"
  let ?p1 = "p\<lparr>terms := terms p @ [u]\<rparr>"
  have fresh: "exp_t u \<notin> exp_t ` set (terms p)" using Cons.prems(2) by auto
  have room: "int (length (terms p)) < cap p" using Cons.prems(3) by simp
  have add: "poly_addTerm alloc p (exp_t u) (coeff u) = (SUCCESS, ?p1)"
    by (rule addTerm_fresh[OF fresh u(1) room])
  have ih: "newPolyLoop alloc ?p1 (restText us) mm False = (SUCCESS, ?p1\<lparr>terms := terms ?p1 @ us\<rparr>)" for mm
    by (rule Cons.IH) (use Cons.prems in auto)
  have sgn: "(if coeff u < 0 then \<bar>coeff u\<bar> * - 1 else \<bar>coeff u\<bar>) = coeff u" by simp
  have dw: "dropWhile isspace (CHR '' '' # ?w @ restText us) \<noteq> []"
    using dropWhile_word[OF tk(1,2), of "restText us"] by (simp add: isspace_simps)
  have 2: "newPolyLoop alloc p (CHR '' '' # ?w @ restText us) (coeff u < 0) False
             = (SUCCESS, p\<lparr>terms := terms p @ u # us\<rparr>)"
    using dw
    by (subst newPolyLoop.simps)
       (simp add: nextComp_tok[OF tk(1,2)] tk u(1) Let_def sgn add ih del: dropWhile.simps)
  have dw1: "dropWhile isspace (CHR '' '' # opText u @ CHR '' '' # ?w @ restText us) \<noteq> []"
    by (simp add: opText_def isspace_def)
  show ?case
    unfolding restText_Cons
    using dw1
    by (subst newPolyLoop.simps) (simp add: nextComp_op opText_props 2 del: dropWhile.simps)
qed

lemma newPoly_printLoop:
  assumes t: "coeff t \<noteq> 0" "printsExactly (coeff t)"
    and ts: "\<forall>t\<in>set ts. coeff t \<noteq> 0 \<and> printsExactly \<bar>coeff t\<bar>"
    and d: "distinct (map exp_t (t # ts))"
  shows "newPoly alloc \<lparr>terms = [], cap = 1 + int (length ts)\<rparr> (printLoop True (t # ts))
           = (SUCCESS, \<lparr>terms = t # ts, cap = 1 + int (length ts)\<rparr>)"
proof -
  note tk = firstTok[OF t]
  let ?w = "printTerm True t"
  let ?p0 = "\<lparr>terms = [], cap = 1 + int (length ts)\<rparr>"
  let ?p1 = "\<lparr>terms = [t], cap = 1 + int (length ts)\<rparr>"
  have nc: "nextComp (?w @ restText ts) = (?w, restText ts)"
    by (rule nextComp_word) (use tk restText_head in auto)
  have add: "poly_addTerm alloc ?p0 (exp_t t) (coeff t) = (SUCCESS, ?p1)"
    using addTerm_fresh[of t ?p0 alloc] t by simp
  have rest: "newPolyLoop alloc ?p1 (restText ts) False False
      = (SUCCESS, \<lparr>terms = t # ts, cap = 1 + int (length ts)\<rparr>)"
    using newPolyLoop_restText[OF ts, of ?p1 alloc False] d by simp
  have dw: "dropWhile isspace (?w @ restText ts) \<noteq> []" by (rule dropWhile_word[OF tk(1,2)])
  have "newPolyLoop alloc ?p0 (?w @ restText ts) False True = (SUCCESS, \<lparr>terms = t # ts, cap = 1 + int (length ts)\<rparr>)"
    using dw tk(1)
    by (subst newPolyLoop.simps) (simp add: nc tk t(1) Let_def add rest)
  then show ?thesis by (simp add: newPoly_def printLoop_restText)
qed

lemma roundtrip_valid_poly:
  assumes inv: "poly_inv q" and ne: "terms q \<noteq> []"
    and ex: "\<forall>t\<in>set (terms q). printsExactly (coeff t) \<and> printsExactly \<bar>coeff t\<bar>"
  shows "poly_print q = (SUCCESS, printLoop True (terms q))"
    and "poly_isValidPolyStr (printLoop True (terms q))"
    and "poly_initPolyStr True alloc (printLoop True (terms q))
           = (Some \<lparr>terms = terms q, cap = int (length (terms q))\<rparr>, True)"
proof -
  obtain t ts where q: "terms q = t # ts" using ne by (cases "terms q") auto
  have nz: "\<forall>t\<in>set (terms q). coeff t \<noteq> 0" using inv by (simp add: poly_inv_def list_all_iff)
  have t: "coeff t \<noteq> 0" "printsExactly (coeff t)" using nz ex q by simp_all
  have ts: "\<forall>t\<in>set ts. coeff t \<noteq> 0 \<and> printsExactly \<bar>coeff t\<bar>" using nz ex q by simp
  have d: "distinct (map exp_t (t # ts))" using inv q by (simp add: poly_inv_def)
  show "poly_print q = (SUCCESS, printLoop True (terms q))"
    using ne by (simp add: poly_print_def poly_hasNoTerms_def psize_def)
  show v: "poly_isValidPolyStr (printLoop True (terms q))"
    unfolding q by (rule isValid_printLoop[OF t ts])
  show "poly_initPolyStr True alloc (printLoop True (terms q))
           = (Some \<lparr>terms = terms q, cap = int (length (terms q))\<rparr>, True)"
    using v unfolding q
    by (simp add: poly_initPolyStr_def maxNum_printLoop[OF t ts] newPoly_printLoop[OF t ts d])
qed

text \<open>
  C5, amended: let a polynomial constructed from a string have at least one term, and let
  every coefficient and its absolute value print exactly. Then printing the sorted
  polynomial succeeds, the text printed is a valid polynomial string, and constructing a
  polynomial from that text gives the same terms (in the same order as printed).
\<close>

theorem C5_roundtrip_exact_coefficients:
  assumes "poly_initPolyStr mallocOk alloc S = (Some p, v)"
      and "terms p \<noteq> []"
      and "\<forall>t\<in>set (terms p). printsExactly (coeff t) \<and> printsExactly \<bar>coeff t\<bar>"
  shows "fst (poly_print (poly_sort p)) = SUCCESS
       \<and> poly_isValidPolyStr (snd (poly_print (poly_sort p)))
       \<and> (\<exists>q. poly_initPolyStr True alloc' (snd (poly_print (poly_sort p))) = (Some q, True)
              \<and> terms q = terms (poly_sort p) \<and> set (terms q) = set (terms p))"
proof -
  let ?s = "poly_sort p"
  have inv: "poly_inv p" using assms(1) by (rule inv_initPolyStr)
  have invs: "poly_inv ?s" using inv by (rule inv_sort)
  have ms: "mset (terms ?s) = mset (terms p)" by (simp add: poly_sort_def sortLoop_mset)
  then have st: "set (terms ?s) = set (terms p)" by (rule mset_eq_setD)
  have ne: "terms ?s \<noteq> []" using assms(2) st by (metis set_empty)
  have ex: "\<forall>t\<in>set (terms ?s). printsExactly (coeff t) \<and> printsExactly \<bar>coeff t\<bar>"
    using assms(3) st by simp
  note rt = roundtrip_valid_poly[OF invs ne ex]
  show ?thesis
    unfolding rt(1) using rt(2) rt(3)[of alloc'] st by simp
qed

lemma natDigits_small: "n < 10 \<Longrightarrow> natDigits n = [''0123456789'' ! n]"
  by (subst natDigits.simps) simp

lemma natDigits_big:
  "\<not> n < 10 \<Longrightarrow> natDigits n = natDigits (n div 10) @ [''0123456789'' ! (n mod 10)]"
  by (subst natDigits.simps) simp

lemma printf_g_1: "printf_g 1 = ''1''"
proof -
  have X: "decExp \<bar>1\<bar> = 0" by (simp add: decExp_def decExpUp.simps)
  have P: "(10::real) powi (5 - 0) = 100000" by (simp add: power_int_def)
  have R: "roundHalfEven (\<bar>1\<bar> * 100000) = 100000" by (simp add: roundHalfEven_def)
  have D: "natDigits 0 = ''0''" "natDigits (Suc 0) = ''1''" by (simp_all add: natDigits_small)
  show ?thesis
    unfolding printf_g_def Let_def X P R
    by (simp add: D stripZeros_def padZeros_def)
qed

lemma printf_g_million: "printf_g 1000000 = ''1e+06''"
proof -
  have X: "decExp \<bar>1000000\<bar> = 6" by (simp add: decExp_def decExpUp.simps)
  have P: "(10::real) powi (5 - 6) = 1 / 10" by (simp add: power_int_def)
  have R: "roundHalfEven (\<bar>1000000\<bar> * (1 / 10)) = 100000" by (simp add: roundHalfEven_def)
  have D: "natDigits 100000 = ''100000''" "natDigits 6 = ''6''"
    by (simp_all add: natDigits_small natDigits_big)
  show ?thesis
    unfolding printf_g_def Let_def X P R
    by (simp add: D stripZeros_def)
qed

lemma printsExactly_1: "printsExactly 1"
proof -
  have "allCompCharsAreValid ''1''" by code_simp
  moreover have "inputsAreValidDoubles ''1'' 1" by code_simp
  moreover have "strtod ''1'' = 1"
    by (simp add: strtod_def Let_def isspace_def isdigit_def digitsVal_def digitVal_def)
  ultimately show ?thesis by (simp add: printsExactly_def printf_g_1)
qed

text \<open>
  C5 as stated fails: \<open>1000000\<close> is a valid polynomial string, its polynomial is the
  constant 1000000, \<open>%g\<close> prints that as \<open>1e+06\<close>, and \<open>1e+06\<close> is not a valid polynomial
  string, so nothing is constructed from it.
\<close>

theorem C5_roundtrip_counterexample:
  "poly_isValidPolyStr ''1000000''
   \<and> poly_initPolyStr True allocNever ''1000000''
       = (Some \<lparr>terms = [\<lparr>exp_t = 0, coeff = 1000000\<rparr>], cap = 1\<rparr>, True)
   \<and> poly_print (poly_sort \<lparr>terms = [\<lparr>exp_t = 0, coeff = 1000000\<rparr>], cap = 1\<rparr>)
       = (SUCCESS, ''1e+06'')
   \<and> \<not> poly_isValidPolyStr ''1e+06''
   \<and> poly_initPolyStr True allocAlways ''1e+06'' = (None, False)"
proof -
  have a: "poly_isValidPolyStr ''1000000''" by code_simp
  have nc: "nextComp ''1000000'' = (''1000000'', [])"
    by (simp add: nextComp_def isspace_def)
  have gc: "getCoeffOfTerm ''1000000'' = 1000000"
    by (simp add: getCoeffOfTerm_def Let_def isXChar_def strtod_def isspace_def isdigit_def
        digitsVal_def digitVal_def)
  have ge: "getExpOfTerm ''1000000'' = 0"
    by (simp add: getExpOfTerm_def Let_def isXChar_def cnth_def)
  have mx: "getMaxNumOfTerms ''1000000'' = 1" by code_simp
  have ad: "poly_addTerm allocNever \<lparr>terms = [], cap = 1\<rparr> 0 1000000
      = (SUCCESS, \<lparr>terms = [\<lparr>exp_t = 0, coeff = 1000000\<rparr>], cap = 1\<rparr>)"
    by (simp add: poly_addTerm_def poly_existsTermWithExp_def psize_def)
  have l0: "newPolyLoop allocNever \<lparr>terms = [\<lparr>exp_t = 0, coeff = 1000000\<rparr>], cap = 1\<rparr> [] False False
      = (SUCCESS, \<lparr>terms = [\<lparr>exp_t = 0, coeff = 1000000\<rparr>], cap = 1\<rparr>)"
    by (subst newPolyLoop.simps) simp
  have np: "newPoly allocNever \<lparr>terms = [], cap = 1\<rparr> ''1000000''
      = (SUCCESS, \<lparr>terms = [\<lparr>exp_t = 0, coeff = 1000000\<rparr>], cap = 1\<rparr>)"
    unfolding newPoly_def
    by (subst newPolyLoop.simps) (simp add: nc gc ge ad l0 isOp_def isspace_def)
  have b: "poly_initPolyStr True allocNever ''1000000''
       = (Some \<lparr>terms = [\<lparr>exp_t = 0, coeff = 1000000\<rparr>], cap = 1\<rparr>, True)"
    using a by (simp add: poly_initPolyStr_def mx np)
  have s: "poly_sort \<lparr>terms = [\<lparr>exp_t = 0, coeff = 1000000\<rparr>], cap = 1\<rparr>
       = \<lparr>terms = [\<lparr>exp_t = 0, coeff = 1000000\<rparr>], cap = 1\<rparr>"
    by (simp add: poly_sort_def sortLoop.simps)
  have c: "poly_print \<lparr>terms = [\<lparr>exp_t = 0, coeff = 1000000\<rparr>], cap = 1\<rparr> = (SUCCESS, ''1e+06'')"
    by (simp add: poly_print_def poly_hasNoTerms_def psize_def printTerm_def printf_g_million)
  have d: "\<not> poly_isValidPolyStr ''1e+06''" by code_simp
  have e: "poly_initPolyStr True allocAlways ''1e+06'' = (None, False)"
    using d by (simp add: poly_initPolyStr_def)
  show ?thesis using a b c d e by (simp add: s)
qed

text \<open>A string whose terms cancel gives a polynomial without terms, for which nothing is
  printed.\<close>

lemma empty_polynomial_is_not_printed:
  "poly_isValidPolyStr ''x - x''
   \<and> poly_initPolyStr True allocNever ''x - x'' = (Some \<lparr>terms = [], cap = 2\<rparr>, True)
   \<and> poly_print (poly_sort \<lparr>terms = [], cap = 2\<rparr>) = (FAILURE, [])
   \<and> \<not> poly_isValidPolyStr []"
proof -
  have a: "poly_isValidPolyStr ''x - x''" by code_simp
  have b: "poly_initPolyStr True allocNever ''x - x'' = (Some \<lparr>terms = [], cap = 2\<rparr>, True)"
    by code_simp
  have c: "poly_print (poly_sort \<lparr>terms = [], cap = 2\<rparr>) = (FAILURE, [])"
    by (simp add: poly_sort_def sortLoop.simps poly_print_def poly_hasNoTerms_def psize_def)
  have d: "\<not> poly_isValidPolyStr []" by (simp add: poly_isValidPolyStr_def)
  show ?thesis using a b c d by simp
qed

text \<open>Evaluation of \<open>%g\<close> and of the sort on the polynomial \<open>2x^2 + 1 - 3x^-1\<close>.\<close>

lemma printf_g_2: "printf_g 2 = ''2''"
proof -
  have X: "decExp \<bar>2\<bar> = 0" by (simp add: decExp_def decExpUp.simps)
  have P: "(10::real) powi (5 - 0) = 100000" by (simp add: power_int_def)
  have R: "roundHalfEven (\<bar>2\<bar> * 100000) = 200000" by (simp add: roundHalfEven_def)
  have D: "natDigits 0 = ''0''" "natDigits 2 = ''2''" by (simp_all add: natDigits_small)
  show ?thesis
    unfolding printf_g_def Let_def X P R
    by (simp add: D stripZeros_def padZeros_def)
qed

lemma printf_g_3: "printf_g 3 = ''3''"
proof -
  have X: "decExp \<bar>3\<bar> = 0" by (simp add: decExp_def decExpUp.simps)
  have P: "(10::real) powi (5 - 0) = 100000" by (simp add: power_int_def)
  have R: "roundHalfEven (\<bar>3\<bar> * 100000) = 300000" by (simp add: roundHalfEven_def)
  have D: "natDigits 0 = ''0''" "natDigits 3 = ''3''" by (simp_all add: natDigits_small)
  show ?thesis
    unfolding printf_g_def Let_def X P R
    by (simp add: D stripZeros_def padZeros_def)
qed

lemma printf_g_m3: "printf_g (- 3) = ''-3''"
proof -
  have X: "decExp \<bar>- 3\<bar> = 0" by (simp add: decExp_def decExpUp.simps)
  have P: "(10::real) powi (5 - 0) = 100000" by (simp add: power_int_def)
  have R: "roundHalfEven (\<bar>- 3\<bar> * 100000) = 300000" by (simp add: roundHalfEven_def)
  have D: "natDigits 0 = ''0''" "natDigits 3 = ''3''" by (simp_all add: natDigits_small)
  show ?thesis
    unfolding printf_g_def Let_def X P R
    by (simp add: D stripZeros_def padZeros_def)
qed

lemmas strtod_eval = strtod_def Let_def isspace_def isdigit_def digitsVal_def digitVal_def

lemma printsExactly_2: "printsExactly 2"
proof -
  have "allCompCharsAreValid ''2''" by code_simp
  moreover have "inputsAreValidDoubles ''2'' 1" by code_simp
  moreover have "strtod ''2'' = 2" by (simp add: strtod_eval)
  ultimately show ?thesis by (simp add: printsExactly_def printf_g_2)
qed

lemma printsExactly_3: "printsExactly 3"
proof -
  have "allCompCharsAreValid ''3''" by code_simp
  moreover have "inputsAreValidDoubles ''3'' 1" by code_simp
  moreover have "strtod ''3'' = 3" by (simp add: strtod_eval)
  ultimately show ?thesis by (simp add: printsExactly_def printf_g_3)
qed

lemma printsExactly_m3: "printsExactly (- 3)"
proof -
  have "allCompCharsAreValid ''-3''" by code_simp
  moreover have "inputsAreValidDoubles ''-3'' 1" by code_simp
  moreover have "strtod ''-3'' = - 3" by (simp add: strtod_eval)
  ultimately show ?thesis by (simp add: printsExactly_def printf_g_m3)
qed

lemma findMaxLoop_end: "length ts \<le> j \<Longrightarrow> findMaxLoop ts j m = m"
  by (subst findMaxLoop.simps) simp

lemma findMaxLoop_step:
  "j < length ts \<Longrightarrow> findMaxLoop ts j m =
     findMaxLoop ts (Suc j) (if sint (exp_t (ts ! j)) > sint (exp_t (ts ! m)) then j else m)"
  by (subst findMaxLoop.simps) simp

lemma sortLoop_end: "length ts \<le> Suc i \<Longrightarrow> sortLoop ts i = ts"
  by (subst sortLoop.simps) simp

lemma sortLoop_step:
  "Suc i < length ts \<Longrightarrow> sortLoop ts i =
     sortLoop (if i \<noteq> findMaxLoop ts (Suc i) i then swap ts i (findMaxLoop ts (Suc i) i) else ts) (Suc i)"
  by (subst sortLoop.simps) (simp add: Let_def)

theorem C5_roundtrip_exact_coefficients_witness:
  "poly_initPolyStr True allocNever ''2x^2 + 1 - 3x^-1''
     = (Some \<lparr>terms = [\<lparr>exp_t = 2, coeff = 2\<rparr>, \<lparr>exp_t = 0, coeff = 1\<rparr>, \<lparr>exp_t = - 1, coeff = - 3\<rparr>], cap = 3\<rparr>, True)
   \<and> printsExactly 1 \<and> printsExactly 2 \<and> printsExactly 3 \<and> printsExactly (- 3)
   \<and> poly_print (poly_sort
        \<lparr>terms = [\<lparr>exp_t = 2, coeff = 2\<rparr>, \<lparr>exp_t = 0, coeff = 1\<rparr>, \<lparr>exp_t = - 1, coeff = - 3\<rparr>], cap = 3\<rparr>)
       = (SUCCESS, ''2x^2 + 1 - 3x^-1'')
   \<and> poly_isValidPolyStr (snd (poly_print (poly_sort
        \<lparr>terms = [\<lparr>exp_t = 2, coeff = 2\<rparr>, \<lparr>exp_t = 0, coeff = 1\<rparr>, \<lparr>exp_t = - 1, coeff = - 3\<rparr>], cap = 3\<rparr>)))
   \<and> (\<exists>q. poly_initPolyStr True allocNever (snd (poly_print (poly_sort
        \<lparr>terms = [\<lparr>exp_t = 2, coeff = 2\<rparr>, \<lparr>exp_t = 0, coeff = 1\<rparr>, \<lparr>exp_t = - 1, coeff = - 3\<rparr>], cap = 3\<rparr>)))
          = (Some q, True)
        \<and> set (terms q) = {\<lparr>exp_t = 2, coeff = 2\<rparr>, \<lparr>exp_t = 0, coeff = 1\<rparr>, \<lparr>exp_t = - 1, coeff = - 3\<rparr>})"
proof -
  let ?ts = "[\<lparr>exp_t = 2, coeff = 2\<rparr>, \<lparr>exp_t = 0, coeff = 1\<rparr>, \<lparr>exp_t = - 1, coeff = - 3::real\<rparr>]"
  let ?p = "\<lparr>terms = ?ts, cap = (3::int)\<rparr>"
  have a: "poly_initPolyStr True allocNever ''2x^2 + 1 - 3x^-1'' = (Some ?p, True)" by code_simp
  have ne: "terms ?p \<noteq> []" by simp
  have ex: "\<forall>t\<in>set (terms ?p). printsExactly (coeff t) \<and> printsExactly \<bar>coeff t\<bar>"
    by (simp add: printsExactly_1 printsExactly_2 printsExactly_3 printsExactly_m3)
  have so: "poly_sort ?p = ?p"
    by (simp add: poly_sort_def sortLoop_step sortLoop_end findMaxLoop_step findMaxLoop_end)
  have d: "printf_d (- 1) = ''-1''"
    by (simp add: printf_d_def natDigits_small)
  have pr: "poly_print ?p = (SUCCESS, ''2x^2 + 1 - 3x^-1'')"
    by (simp add: poly_print_def poly_hasNoTerms_def psize_def printTerm_def printf_g_1
        printf_g_2 printf_g_3 printf_d_def natDigits_small)
  from C5_roundtrip_exact_coefficients[OF a ne ex, of allocNever]
  show ?thesis using a pr by (auto simp: so printsExactly_1 printsExactly_2 printsExactly_3 printsExactly_m3)
qed
end
